theory Spec2Isabelle
  imports Main "HOL-Library.Sublist" "HOL-Library.Multiset" "HOL-Library.AList"
begin

section \<open>Data model (shared/types, shared/constants)\<close>

text \<open>
  At run time a \<open>LogLevel\<close> and a \<open>LogMode\<close> are JavaScript strings; the union types
  \<open>'debug' | 'info' | 'warn' | 'error'\<close> and \<open>'pretty' | 'json' | 'silent'\<close> exist only for
  the type checker (the tests pass other strings with \<open>as never\<close>), so both are strings
  here and \<open>LEVEL_ORDER.indexOf\<close> is modelled with its result \<open>-1\<close> for a string that is
  not in the array. Numbers of the configuration (\<open>batchSize\<close>, \<open>maxRetries\<close>, ...) are
  integers, times are milliseconds as integers. A \<open>LogMeta\<close> object is an association
  list with unique keys.
\<close>

type_synonym LogMeta = "(string \<times> string) list"

record LogEntry =
  level :: string
  msg :: string
  time :: string
  service :: string
  scope :: "string option"
  meta :: "LogMeta option"

definition LEVEL_ORDER :: "string list" where
  "LEVEL_ORDER = [''debug'', ''info'', ''warn'', ''error'']"

definition VALID_LEVELS :: "string list" where
  "VALID_LEVELS = LEVEL_ORDER"

definition VALID_MODES :: "string list" where
  "VALID_MODES = [''pretty'', ''json'', ''silent'']"

text \<open>\<open>Array.prototype.indexOf\<close>: position of the first occurrence, \<open>-1\<close> when absent.\<close>

fun indexOf :: "'a list \<Rightarrow> 'a \<Rightarrow> int" where
  "indexOf [] x = -1"
| "indexOf (y # ys) x =
     (if x = y then 0 else (let i = indexOf ys x in if i < 0 then -1 else i + 1))"

text \<open>
  A value thrown by user code or by \<open>validateConfig\<close>: an \<open>Error\<close> with its message.
\<close>

datatype js_error = JsError string

text \<open>
  A transport's \<open>write(payload)\<close> receives a single entry or an array of entries. What the
  call does synchronously ends in one of three ways: it returns a value that is not a
  promise, it throws, or it returns a promise (settled later by the environment). Before
  that, the body of \<open>write\<close> is free to call the logger: it may log entries, which reach
  \<open>enqueue\<close> of the slot it belongs to (with the value \<open>Date.now()\<close> has then), and it may
  call \<open>flush()\<close>. The transport may keep state, so its behaviour is a function of all
  payloads it has been called with so far, the current one last; the result is the list
  of logger calls made during the call, in order, and the way the call ends.
\<close>

datatype payload = Single LogEntry | Batch "LogEntry list"

datatype write_result = Returns | Throws | Pending

datatype callback = CallEnqueue LogEntry int | CallFlush

type_synonym LogTransport = "payload list \<Rightarrow> callback list \<times> write_result"

fun entries_of :: "payload \<Rightarrow> LogEntry list" where
  "entries_of (Single e) = [e]"
| "entries_of (Batch es) = es"

section \<open>TransportSlot (shared/TransportSlot.ts)\<close>

text \<open>
  The read-only fields of a \<open>TransportSlot\<close>, as resolved by the constructor. The field
  \<open>filter\<close> is named \<open>filter_fn\<close> here; a filter call either throws or returns a boolean.
\<close>

record slot_config =
  transport :: LogTransport
  minLevel :: "string option"
  filter_fn :: "(LogEntry \<Rightarrow> js_error + bool) option"
  batchSize :: int
  flushInterval :: int
  maxQueueSize :: int
  rateLimit :: int
  maxRetries :: int
  retryDelay :: int

text \<open>
  One activation of the async function \<open>doWrite\<close>. It has been called and has not reached
  its first suspension yet (\<open>Running\<close>: its first write call is on the call stack), it is
  suspended at \<open>await result\<close> (\<open>Awaiting\<close>: a write call is outstanding), suspended at
  \<open>await sleep(retryDelay)\<close> (\<open>Sleeping\<close>), or it has left its loop (\<open>Finished\<close>, with
  \<open>True\<close> when the last write succeeded) and the \<open>finally\<close> callback has not run yet.
  \<open>t_id\<close> names the promise that \<open>doWrite(batch).finally(...)\<close> makes for this activation;
  \<open>t_upto\<close> is bookkeeping only: the number of entries admitted so far when the batch was
  formed.
\<close>

datatype phase = Running | Awaiting | Sleeping | Finished bool

record task =
  t_id :: nat
  t_batch :: "LogEntry list"
  t_attempt :: int
  t_phase :: phase
  t_upto :: nat

text \<open>
  A promise reaction registered on promise \<open>w_on\<close>. \<open>Rerun\<close> is the callback
  \<open>() => this.flushNow()\<close> of line 104; \<open>Follow\<close> is a caller of \<open>flush()\<close> holding the
  promise of the write that its own call started. \<open>w_caller\<close> is the number of the
  \<open>flush()\<close> call waiting for the result (\<open>None\<close> for the \<open>void this.flushNow()\<close> calls
  of \<open>enqueue\<close> and of the timer).
\<close>

datatype waiter_kind = Rerun | Follow

record waiter =
  w_on :: nat
  w_kind :: waiter_kind
  w_caller :: "nat option"

text \<open>
  The mutable fields of a slot (\<open>queue\<close>, \<open>timer\<close>, \<open>rateLimitCount\<close>,
  \<open>rateLimitWindowStart\<close>, \<open>flushPromise\<close>), the pending activations and reactions of the
  event loop, and a log of what the slot did:
  \<^item> \<open>writes\<close>: every call \<open>transport.write(payload)\<close>, in call order, with the value of
    \<open>attempt\<close> at the call;
  \<^item> \<open>delivered\<close>: the batches whose write succeeded, \<open>discarded\<close>: the batches given up;
  \<^item> \<open>admitted\<close>: the entries pushed on the queue, \<open>evicted\<close>: the entries shifted off it;
  \<^item> \<open>flush_marks\<close>: for the n-th call of \<open>flush()\<close>, the number of entries admitted
    before the call; \<open>flush_done\<close>: the calls whose promise has resolved, each with the
    result of the check \<open>drained\<close> made at that moment.
\<close>

record slot =
  queue :: "LogEntry list"
  timer :: bool
  rateLimitCount :: int
  rateLimitWindowStart :: int
  flushPromise :: "nat option"
  tasks :: "task list"
  waiters :: "waiter list"
  next_id :: nat
  writes :: "(int \<times> payload) list"
  delivered :: "LogEntry list list"
  discarded :: "LogEntry list list"
  admitted :: "LogEntry list"
  evicted :: "LogEntry list"
  flush_marks :: "nat list"
  flush_done :: "(nat \<times> bool) list"

definition new_slot :: slot where
  "new_slot = \<lparr> queue = [], timer = False, rateLimitCount = 0, rateLimitWindowStart = 0,
     flushPromise = None, tasks = [], waiters = [], next_id = 0, writes = [],
     delivered = [], discarded = [], admitted = [], evicted = [],
     flush_marks = [], flush_done = [] \<rparr>"

subsection \<open>isRateLimited (lines 143-153)\<close>

definition isRateLimited :: "slot_config \<Rightarrow> int \<Rightarrow> slot \<Rightarrow> bool \<times> slot" where
  "isRateLimited cfg now s =
     (if rateLimit cfg \<le> 0 then (False, s)
      else
        let s1 = (if now - rateLimitWindowStart s \<ge> 1000
                  then s\<lparr>rateLimitWindowStart := now, rateLimitCount := 0\<rparr> else s)
        in if rateLimitCount s1 \<ge> rateLimit cfg then (True, s1)
           else (False, s1\<lparr>rateLimitCount := rateLimitCount s1 + 1\<rparr>))"

subsection \<open>doWrite (lines 123-141)\<close>

definition payload_of :: "LogEntry list \<Rightarrow> payload" where
  "payload_of batch = (case batch of [e] \<Rightarrow> Single e | _ \<Rightarrow> Batch batch)"

text \<open>
  The functions below take a first argument \<open>cb\<close>: the way the logger calls made from
  inside \<open>transport.write\<close> are run on the slot. It returns \<open>True\<close> when one of these
  calls threw, and the slot afterwards. It is \<open>callbacks\<close>, defined after \<open>enqueue\<close>.
\<close>

type_synonym reentry = "callback list \<Rightarrow> slot \<Rightarrow> bool \<times> slot"

text \<open>
  The \<open>while (!done)\<close> loop from one write call up to the next suspension or the end of
  the loop. The call \<open>transport.write(payload)\<close> (line 130) is logged, the logger calls
  made by its body are run, and then the call ends; an exception of a logger call leaves
  \<open>write\<close> as well. The result is the value of \<open>attempt\<close>, where the activation stands,
  and the slot afterwards. The loop runs on without suspending only through the \<open>catch\<close>
  branch with \<open>attempt < maxRetries\<close> and \<open>retryDelay \<le> 0\<close>, and \<open>attempt\<close> grows there.
\<close>

function attempt_loop ::
  "reentry \<Rightarrow> slot_config \<Rightarrow> payload \<Rightarrow> int \<Rightarrow> slot \<Rightarrow> int \<times> phase \<times> slot"
where
  "attempt_loop cb cfg p attempt s =
     (let s1 = s\<lparr>writes := writes s @ [(attempt, p)]\<rparr>;
          w = transport cfg (map snd (writes s1));
          r = cb (fst w) s1
      in case (if fst r then Throws else snd w) of
           Returns \<Rightarrow> (attempt, Finished True, snd r)
         | Pending \<Rightarrow> (attempt, Awaiting, snd r)
         | Throws \<Rightarrow>
             if attempt \<ge> maxRetries cfg then (attempt, Finished False, snd r)
             else if retryDelay cfg > 0 then (attempt + 1, Sleeping, snd r)
             else attempt_loop cb cfg p (attempt + 1) (snd r))"
  by pat_completeness auto
termination
  by (relation "measure (\<lambda>(cb, cfg, p, attempt, s). nat (maxRetries cfg - attempt))") auto

text \<open>The \<open>catch\<close> branch (lines 133-138), entered also when an awaited write rejects.\<close>

definition on_failure ::
  "reentry \<Rightarrow> slot_config \<Rightarrow> payload \<Rightarrow> int \<Rightarrow> slot \<Rightarrow> int \<times> phase \<times> slot"
where
  "on_failure cb cfg p attempt s =
     (if attempt \<ge> maxRetries cfg then (attempt, Finished False, s)
      else if retryDelay cfg > 0 then (attempt + 1, Sleeping, s)
      else attempt_loop cb cfg p (attempt + 1) s)"

text \<open>Storing where an activation stands, and logging the outcome when it has finished.\<close>

definition set_task :: "nat \<Rightarrow> int \<Rightarrow> phase \<Rightarrow> slot \<Rightarrow> slot" where
  "set_task p a ph s =
     s\<lparr>tasks := map (\<lambda>u. if t_id u = p then u\<lparr>t_attempt := a, t_phase := ph\<rparr> else u) (tasks s)\<rparr>"

definition settle :: "task \<Rightarrow> int \<times> phase \<times> slot \<Rightarrow> slot" where
  "settle t r =
     (let a = fst r; ph = fst (snd r);
          s1 = set_task (t_id t) a ph (snd (snd r))
      in (case ph of
            Finished ok \<Rightarrow>
              (if ok then s1\<lparr>delivered := delivered s1 @ [t_batch t]\<rparr>
               else s1\<lparr>discarded := discarded s1 @ [t_batch t]\<rparr>)
          | _ \<Rightarrow> s1))"

text \<open>
  The call \<open>this.doWrite(batch)\<close>: a new activation, run up to its first suspension.
  An empty batch returns at once, with no write (line 124).
\<close>

definition doWrite :: "reentry \<Rightarrow> slot_config \<Rightarrow> LogEntry list \<Rightarrow> slot \<Rightarrow> slot" where
  "doWrite cb cfg batch s =
     (let t = \<lparr>t_id = next_id s, t_batch = batch, t_attempt = 0, t_phase = Running,
               t_upto = length (admitted s)\<rparr>;
          s1 = s\<lparr>tasks := tasks s @ [t], next_id := Suc (next_id s)\<rparr>
      in if batch = [] then set_task (t_id t) 0 (Finished True) s1
         else settle t (attempt_loop cb cfg (payload_of batch) 0 s1))"

subsection \<open>flushNow (lines 101-121), flush, armTimer, destroy\<close>

text \<open>
  \<open>drained m s\<close>: no entry among the first \<open>m\<close> admitted ones is still in the queue or in
  the batch of an unfinished write. The queue holds the most recently admitted entries,
  so its oldest entry is number \<open>length (admitted s) - length (queue s)\<close>, and a batch
  formed when \<open>t_upto\<close> entries had been admitted starts at number
  \<open>t_upto - length batch\<close>.
\<close>

definition drained :: "nat \<Rightarrow> slot \<Rightarrow> bool" where
  "drained m s =
     (m + length (queue s) \<le> length (admitted s) \<and>
      list_all (\<lambda>t. (case t_phase t of Finished b \<Rightarrow> True | _ \<Rightarrow> False) \<or>
                     m + length (t_batch t) \<le> t_upto t) (tasks s))"

definition mark_of :: "slot \<Rightarrow> nat \<Rightarrow> nat" where
  "mark_of s f = (if f < length (flush_marks s) then flush_marks s ! f else 0)"

text \<open>The promise returned to a caller of \<open>flush()\<close> resolves.\<close>

definition resolve_caller :: "nat option \<Rightarrow> slot \<Rightarrow> slot" where
  "resolve_caller who s =
     (case who of None \<Rightarrow> s
      | Some f \<Rightarrow> s\<lparr>flush_done := flush_done s @ [(f, drained (mark_of s f) s)]\<rparr>)"

text \<open>
  In line 117, \<open>this.flushPromise = this.doWrite(batch).finally(...)\<close>, the right-hand
  side is evaluated first: \<open>doWrite\<close> runs up to its first suspension, with the write
  call and whatever the transport does inside it, while \<open>flushPromise\<close> still is \<open>null\<close>.
  Only then is the promise of this activation stored, over whatever a call of \<open>flushNow\<close>
  made in between has stored.
\<close>

definition flushNow :: "reentry \<Rightarrow> slot_config \<Rightarrow> nat option \<Rightarrow> slot \<Rightarrow> slot" where
  "flushNow cb cfg who s =
     (case flushPromise s of
        Some p \<Rightarrow> s\<lparr>waiters := waiters s @ [\<lparr>w_on = p, w_kind = Rerun, w_caller = who\<rparr>]\<rparr>
      | None \<Rightarrow>
          if queue s = [] then resolve_caller who s
          else
            let s1 = s\<lparr>timer := False\<rparr>;
                batch = queue s1;
                s2 = s1\<lparr>queue := []\<rparr>;
                p = next_id s2;
                s3 = (doWrite cb cfg batch s2)\<lparr>flushPromise := Some p\<rparr>
            in (case who of None \<Rightarrow> s3
                | Some f \<Rightarrow>
                    s3\<lparr>waiters := waiters s3 @ [\<lparr>w_on = p, w_kind = Follow, w_caller = who\<rparr>]\<rparr>))"

definition flush :: "reentry \<Rightarrow> slot_config \<Rightarrow> slot \<Rightarrow> slot" where
  "flush cb cfg s =
     (let f = length (flush_marks s);
          s1 = s\<lparr>flush_marks := flush_marks s @ [length (admitted s)]\<rparr>
      in flushNow cb cfg (Some f) s1)"

definition armTimer :: "slot_config \<Rightarrow> slot \<Rightarrow> slot" where
  "armTimer cfg s = (if timer s \<or> flushInterval cfg \<le> 0 then s else s\<lparr>timer := True\<rparr>)"

definition destroy :: "slot \<Rightarrow> slot" where
  "destroy s = (if timer s then s\<lparr>timer := False\<rparr> else s)"

subsection \<open>enqueue (lines 52-76)\<close>

definition push_evict :: "slot_config \<Rightarrow> LogEntry \<Rightarrow> slot \<Rightarrow> slot" where
  "push_evict cfg entry s =
     (let s1 = s\<lparr>queue := queue s @ [entry], admitted := admitted s @ [entry]\<rparr>
      in if maxQueueSize cfg > 0 \<and> int (length (queue s1)) > maxQueueSize cfg
         then (case queue s1 of [] \<Rightarrow> s1
               | x # xs \<Rightarrow> s1\<lparr>queue := xs, evicted := evicted s1 @ [x]\<rparr>)
         else s1)"

definition trigger :: "reentry \<Rightarrow> slot_config \<Rightarrow> slot \<Rightarrow> slot" where
  "trigger cb cfg s =
     (if batchSize cfg \<le> 1 \<or> int (length (queue s)) \<ge> batchSize cfg
      then flushNow cb cfg None s else armTimer cfg s)"

definition enqueue ::
  "reentry \<Rightarrow> slot_config \<Rightarrow> LogEntry \<Rightarrow> int \<Rightarrow> slot \<Rightarrow> js_error + slot"
where
  "enqueue cb cfg entry now s =
     (if (case minLevel cfg of None \<Rightarrow> False
          | Some m \<Rightarrow> indexOf LEVEL_ORDER (level entry) < indexOf LEVEL_ORDER m)
      then Inr s
      else
        case (case filter_fn cfg of None \<Rightarrow> Inr True | Some f \<Rightarrow> f entry) of
          Inl err \<Rightarrow> Inl err
        | Inr False \<Rightarrow> Inr s
        | Inr True \<Rightarrow>
            (case isRateLimited cfg now s of
               (True, s1) \<Rightarrow> Inr s1
             | (False, s1) \<Rightarrow> Inr (trigger cb cfg (push_evict cfg entry s1))))"

subsection \<open>Logger calls made from inside \<open>transport.write\<close>\<close>

text \<open>
  The logger calls that the body of a write makes run on the same slot, in order, on top
  of the frames of \<open>enqueue\<close>, \<open>flushNow\<close>, \<open>doWrite\<close> and \<open>write\<close> already on the call
  stack; a write they start may again call the logger. The call stack is finite:
  \<open>callbacks d\<close> runs such calls when \<open>d\<close> more levels of them fit on the stack, and with
  no level left the first call throws (\<open>RangeError\<close>). An exception of a logger call,
  that one or one of a throwing filter, ends the body of \<open>write\<close>: the call throws. A
  logger call that throws leaves the slot as it was, so a transport that catches the
  exception and goes on behaves, as far as the slot can tell, like one that does not
  make that call.
\<close>

fun callbacks :: "nat \<Rightarrow> slot_config \<Rightarrow> callback list \<Rightarrow> slot \<Rightarrow> bool \<times> slot" where
  "callbacks d cfg [] s = (False, s)"
| "callbacks 0 cfg (c # cs) s = (True, s)"
| "callbacks (Suc d) cfg (CallEnqueue entry now # cs) s =
     (case enqueue (callbacks d cfg) cfg entry now s of
        Inl err \<Rightarrow> (True, s)
      | Inr s' \<Rightarrow> callbacks (Suc d) cfg cs s')"
| "callbacks (Suc d) cfg (CallFlush # cs) s =
     callbacks (Suc d) cfg cs (flush (callbacks d cfg) cfg s)"

section \<open>The event loop\<close>

text \<open>
  JavaScript runs one callback at a time. Between callbacks the environment chooses what
  happens next: the logger dispatches an entry to the slot (\<open>Enqueue\<close>, with the value
  \<open>Date.now()\<close> has during the call), somebody calls \<open>flush()\<close>, the armed timer
  fires, the promise returned by an outstanding write settles (\<open>True\<close>: fulfilled), a
  retry delay ends, the \<open>finally\<close> callback of a finished \<open>doWrite\<close> runs, the
  reactions registered on a promise whose \<open>finally\<close> callback has run are executed in
  registration order, or the slot is destroyed. An event that cannot happen in the
  current state (no such activation, timer not armed) leaves the state as it is. Every
  event starts on a call stack with room for \<open>d\<close> levels of logger calls made from inside
  a write.
\<close>

datatype event =
    Enqueue LogEntry int
  | Flush
  | TimerFire
  | WriteSettled nat bool
  | SleepDone nat
  | FinallyCb nat
  | Resolve nat
  | Destroy

definition find_task :: "nat \<Rightarrow> slot \<Rightarrow> task option" where
  "find_task p s = find (\<lambda>t. t_id t = p) (tasks s)"

definition timerFire :: "reentry \<Rightarrow> slot_config \<Rightarrow> slot \<Rightarrow> slot" where
  "timerFire cb cfg s = (if timer s then flushNow cb cfg None (s\<lparr>timer := False\<rparr>) else s)"

definition writeSettled :: "reentry \<Rightarrow> slot_config \<Rightarrow> nat \<Rightarrow> bool \<Rightarrow> slot \<Rightarrow> slot" where
  "writeSettled cb cfg p ok s =
     (case find_task p s of
        None \<Rightarrow> s
      | Some t \<Rightarrow>
          if t_phase t = Awaiting then
            (if ok then settle t (t_attempt t, Finished True, s)
             else settle t (on_failure cb cfg (payload_of (t_batch t)) (t_attempt t) s))
          else s)"

definition sleepDone :: "reentry \<Rightarrow> slot_config \<Rightarrow> nat \<Rightarrow> slot \<Rightarrow> slot" where
  "sleepDone cb cfg p s =
     (case find_task p s of
        None \<Rightarrow> s
      | Some t \<Rightarrow>
          if t_phase t = Sleeping
          then settle t (attempt_loop cb cfg (payload_of (t_batch t)) (t_attempt t) s)
          else s)"

text \<open>
  The callback of \<open>finally\<close> (line 118): \<open>this.flushPromise = null\<close>, whichever promise
  is stored there.
\<close>

definition finallyCb :: "nat \<Rightarrow> slot \<Rightarrow> slot" where
  "finallyCb p s =
     (case find_task p s of
        None \<Rightarrow> s
      | Some t \<Rightarrow>
          (case t_phase t of
             Finished ok \<Rightarrow> s\<lparr>flushPromise := None, tasks := filter (\<lambda>u. t_id u \<noteq> p) (tasks s)\<rparr>
           | _ \<Rightarrow> s))"

definition run_waiter :: "reentry \<Rightarrow> slot_config \<Rightarrow> waiter \<Rightarrow> slot \<Rightarrow> slot" where
  "run_waiter cb cfg w s =
     (case w_kind w of
        Rerun \<Rightarrow> flushNow cb cfg (w_caller w) s
      | Follow \<Rightarrow> resolve_caller (w_caller w) s)"

definition resolve :: "reentry \<Rightarrow> slot_config \<Rightarrow> nat \<Rightarrow> slot \<Rightarrow> slot" where
  "resolve cb cfg p s =
     (if p < next_id s \<and> find_task p s = None then
        foldl (\<lambda>s' w. run_waiter cb cfg w s')
          (s\<lparr>waiters := filter (\<lambda>w. w_on w \<noteq> p) (waiters s)\<rparr>)
          (filter (\<lambda>w. w_on w = p) (waiters s))
      else s)"

fun step :: "nat \<Rightarrow> slot_config \<Rightarrow> slot \<Rightarrow> event \<Rightarrow> slot" where
  "step d cfg s (Enqueue entry now) =
     (case enqueue (callbacks d cfg) cfg entry now s of Inl err \<Rightarrow> s | Inr s' \<Rightarrow> s')"
| "step d cfg s Flush = flush (callbacks d cfg) cfg s"
| "step d cfg s TimerFire = timerFire (callbacks d cfg) cfg s"
| "step d cfg s (WriteSettled p ok) = writeSettled (callbacks d cfg) cfg p ok s"
| "step d cfg s (SleepDone p) = sleepDone (callbacks d cfg) cfg p s"
| "step d cfg s (FinallyCb p) = finallyCb p s"
| "step d cfg s (Resolve p) = resolve (callbacks d cfg) cfg p s"
| "step d cfg s Destroy = destroy s"

definition run :: "nat \<Rightarrow> slot_config \<Rightarrow> event list \<Rightarrow> slot" where
  "run d cfg evs = foldl (step d cfg) new_slot evs"

section \<open>Configuration (utils/validate, TransportSlot constructor)\<close>

text \<open>
  \<open>String.prototype.trim\<close> removes white space at both ends. Strings are lists of
  8-bit characters here, so the white space characters are tab, line feed, vertical tab,
  form feed, carriage return, space and no-break space.
\<close>

definition is_space :: "char \<Rightarrow> bool" where
  "is_space c = (c \<in> set [CHR 0x09, CHR 0x0A, CHR 0x0B, CHR 0x0C, CHR 0x0D, CHR 0x20, CHR 0xA0])"

definition trim :: "string \<Rightarrow> string" where
  "trim str = rev (dropWhile is_space (rev (dropWhile is_space str)))"

fun join :: "string \<Rightarrow> string list \<Rightarrow> string" where
  "join sep [] = []"
| "join sep [x] = x"
| "join sep (x # y # ys) = x @ sep @ join sep (y # ys)"

definition isValidLevel :: "string \<Rightarrow> bool" where
  "isValidLevel v = (v \<in> set VALID_LEVELS)"

definition isValidMode :: "string \<Rightarrow> bool" where
  "isValidMode v = (v \<in> set VALID_MODES)"

text \<open>
  The optional fields of a \<open>TransportConfig\<close> object, and the two shapes an element of
  \<open>LogConfig.transports\<close> can have: a plain transport or a \<open>TransportConfig\<close>.
\<close>

record TransportConfig =
  tc_transport :: LogTransport
  tc_minLevel :: "string option"
  tc_filter :: "(LogEntry \<Rightarrow> js_error + bool) option"
  tc_batchSize :: "int option"
  tc_flushInterval :: "int option"
  tc_maxQueueSize :: "int option"
  tc_rateLimit :: "int option"
  tc_maxRetries :: "int option"
  tc_retryDelay :: "int option"

datatype transport_arg = Plain LogTransport | Configured TransportConfig

record LogConfig =
  c_level :: "string option"
  c_mode :: "string option"
  c_serviceName :: "string option"
  c_transports :: "transport_arg list option"

definition validateConfig :: "LogConfig \<Rightarrow> js_error + unit" where
  "validateConfig config =
     (if (case c_level config of None \<Rightarrow> False | Some l \<Rightarrow> \<not> isValidLevel l) then
        Inl (JsError (''Invalid log level: '' @ [CHR 0x22] @ (case c_level config of None \<Rightarrow> [] | Some l \<Rightarrow> l)
               @ [CHR 0x22] @ ''. Must be one of: '' @ join '', '' VALID_LEVELS))
      else if (case c_mode config of None \<Rightarrow> False | Some m \<Rightarrow> \<not> isValidMode m) then
        Inl (JsError (''Invalid log mode: '' @ [CHR 0x22] @ (case c_mode config of None \<Rightarrow> [] | Some m \<Rightarrow> m)
               @ [CHR 0x22] @ ''. Must be one of: '' @ join '', '' VALID_MODES))
      else if (case c_serviceName config of None \<Rightarrow> False | Some n \<Rightarrow> trim n = []) then
        Inl (JsError ''serviceName cannot be empty'')
      else Inr ())"

text \<open>The constructor of \<open>TransportSlot\<close> (lines 39-49): \<open>config?.field ?? default\<close>.\<close>

definition or_default :: "'a option \<Rightarrow> 'a \<Rightarrow> 'a" where
  "or_default v d = (case v of None \<Rightarrow> d | Some x \<Rightarrow> x)"

definition TransportSlot :: "LogTransport \<Rightarrow> TransportConfig option \<Rightarrow> slot_config \<times> slot" where
  "TransportSlot tr config =
     (\<lparr> transport = tr,
        minLevel = (case config of None \<Rightarrow> None | Some c \<Rightarrow> tc_minLevel c),
        filter_fn = (case config of None \<Rightarrow> None | Some c \<Rightarrow> tc_filter c),
        batchSize = or_default (case config of None \<Rightarrow> None | Some c \<Rightarrow> tc_batchSize c) 1,
        flushInterval = or_default (case config of None \<Rightarrow> None | Some c \<Rightarrow> tc_flushInterval c) 0,
        maxQueueSize = or_default (case config of None \<Rightarrow> None | Some c \<Rightarrow> tc_maxQueueSize c) 0,
        rateLimit = or_default (case config of None \<Rightarrow> None | Some c \<Rightarrow> tc_rateLimit c) 0,
        maxRetries = or_default (case config of None \<Rightarrow> None | Some c \<Rightarrow> tc_maxRetries c) 0,
        retryDelay = or_default (case config of None \<Rightarrow> None | Some c \<Rightarrow> tc_retryDelay c) 0 \<rparr>,
      new_slot)"

definition toSlot :: "transport_arg \<Rightarrow> slot_config \<times> slot" where
  "toSlot v = (case v of Configured c \<Rightarrow> TransportSlot (tc_transport c) (Some c)
               | Plain t \<Rightarrow> TransportSlot t None)"

section \<open>CoreLogger (core/CoreLogger.ts) and BrowserLogger\<close>

text \<open>
  The static fields \<open>level\<close>, \<open>mode\<close>, \<open>serviceName\<close> and \<open>slots\<close> of the logger, with
  three logs of its effects: the slots it has destroyed and dropped (their writes go on
  in the background), the number of \<open>TransportSlot\<close> objects constructed so far, and
  the calls of \<open>console.log\<close>. Formatting is outside this development: a console call is
  recorded with the values it prints.
\<close>

datatype console_call =
    JsonLine string string string "string option" string "LogMeta option"
  | PrettyLine bool string string "string option" string "LogMeta option"

record logger =
  lg_level :: string
  lg_mode :: string
  lg_serviceName :: string
  lg_slots :: "(slot_config \<times> slot) list"
  lg_retired :: "(slot_config \<times> slot) list"
  lg_constructed :: nat
  lg_console :: "console_call list"

definition shouldLog :: "logger \<Rightarrow> string \<Rightarrow> bool" where
  "shouldLog lg lvl = (indexOf LEVEL_ORDER lvl \<ge> indexOf LEVEL_ORDER (lg_level lg))"

text \<open>
  \<open>dispatch\<close> calls \<open>enqueue\<close> on every slot in order; an exception leaves the loop, so the
  slots after the throwing one do not see the entry. \<open>Date.now()\<close> has one value during
  the call. \<open>d\<close> is the room on the call stack, as in \<open>step\<close>; the logger calls a
  transport makes from inside \<open>write\<close> are followed on its own slot.
\<close>

fun dispatch ::
  "nat \<Rightarrow> LogEntry \<Rightarrow> int \<Rightarrow> (slot_config \<times> slot) list
     \<Rightarrow> js_error option \<times> (slot_config \<times> slot) list"
where
  "dispatch d entry now [] = (None, [])"
| "dispatch d entry now (cs # rest) =
     (case enqueue (callbacks d (fst cs)) (fst cs) entry now (snd cs) of
        Inl err \<Rightarrow> (Some err, cs # rest)
      | Inr s' \<Rightarrow> (let r = dispatch d entry now rest in (fst r, (fst cs, s') # snd r)))"

text \<open>Object spread \<open>{ ...a, ...b }\<close>: the keys of \<open>a\<close>, overwritten or extended by \<open>b\<close>.\<close>

definition spread :: "LogMeta \<Rightarrow> LogMeta \<Rightarrow> LogMeta" where
  "spread a b = foldl (\<lambda>acc kv. AList.update (fst kv) (snd kv) acc) a b"

definition mergedMeta :: "LogMeta option \<Rightarrow> LogMeta option \<Rightarrow> LogMeta option" where
  "mergedMeta meta_arg ctx =
     (if meta_arg \<noteq> None \<or> ctx \<noteq> None
      then Some (spread (or_default ctx []) (or_default meta_arg []))
      else None)"

text \<open>
  \<open>CoreLogger.write\<close> (lines 32-91), named \<open>logger_write\<close> here. \<open>tm\<close> is the value of \<open>timestamp()\<close>, \<open>now\<close> the
  value of \<open>Date.now()\<close>. The result is the exception that leaves the call, if any, and
  the logger afterwards.
\<close>

definition logger_write ::
  "nat \<Rightarrow> logger \<Rightarrow> string \<Rightarrow> string \<Rightarrow> LogMeta option \<Rightarrow> string option \<Rightarrow> LogMeta option \<Rightarrow> string \<Rightarrow> int
     \<Rightarrow> js_error option \<times> logger"
where
  "logger_write d lg lvl message meta_arg scope_arg ctx tm now =
     (if \<not> shouldLog lg lvl then (None, lg)
      else
        let isPretty = (lg_mode lg = ''pretty'');
            mm = mergedMeta meta_arg ctx;
            entry = \<lparr>level = lvl, msg = message, time = tm, service = lg_serviceName lg,
                     scope = scope_arg, meta = mm\<rparr>;
            r = (if length (lg_slots lg) > 0 then dispatch d entry now (lg_slots lg)
                 else (None, lg_slots lg));
            lg1 = lg\<lparr>lg_slots := snd r\<rparr>
        in (case fst r of
              Some err \<Rightarrow> (Some err, lg1)
            | None \<Rightarrow>
                if lg_mode lg = ''silent'' then (None, lg1)
                else if lg_mode lg = ''json'' then
                  (None, lg1\<lparr>lg_console := lg_console lg1 @
                     [JsonLine lvl tm (lg_serviceName lg) scope_arg message mm]\<rparr>)
                else
                  (None, lg1\<lparr>lg_console := lg_console lg1 @
                     [PrettyLine isPretty lvl tm scope_arg message mm]\<rparr>)))"


text \<open>
  \<open>configure\<close> (lines 153-162): \<open>validateConfig\<close> first; an exception leaves the call
  before any assignment. The result is the exception, if any, and the logger afterwards.
\<close>

definition configure :: "LogConfig \<Rightarrow> logger \<Rightarrow> js_error option \<times> logger" where
  "configure config lg =
     (case validateConfig config of
        Inl err \<Rightarrow> (Some err, lg)
      | Inr u \<Rightarrow>
          let lg1 = (case c_level config of None \<Rightarrow> lg | Some l \<Rightarrow> lg\<lparr>lg_level := l\<rparr>);
              lg2 = (case c_mode config of None \<Rightarrow> lg1 | Some m \<Rightarrow> lg1\<lparr>lg_mode := m\<rparr>);
              lg3 = (case c_serviceName config of None \<Rightarrow> lg2 | Some n \<Rightarrow> lg2\<lparr>lg_serviceName := n\<rparr>);
              lg4 = (case c_transports config of
                       None \<Rightarrow> lg3
                     | Some ts \<Rightarrow>
                         lg3\<lparr>lg_retired := lg_retired lg3 @ map (\<lambda>cs. (fst cs, destroy (snd cs))) (lg_slots lg3),
                             lg_slots := map toSlot ts,
                             lg_constructed := lg_constructed lg3 + length ts\<rparr>)
          in (None, lg4))"

definition addTransport :: "LogTransport \<Rightarrow> TransportConfig \<Rightarrow> logger \<Rightarrow> logger" where
  "addTransport tr config lg =
     lg\<lparr>lg_slots := lg_slots lg @ [TransportSlot tr (Some (config\<lparr>tc_transport := tr\<rparr>))],
        lg_constructed := Suc (lg_constructed lg)\<rparr>"

text \<open>\<open>CoreLogger.flush\<close> (lines 168-170): one \<open>flush()\<close> call on every slot.\<close>

definition logger_flush :: "nat \<Rightarrow> logger \<Rightarrow> logger" where
  "logger_flush d lg =
     lg\<lparr>lg_slots := map (\<lambda>cs. (fst cs, flush (callbacks d (fst cs)) (fst cs) (snd cs))) (lg_slots lg)\<rparr>"

section \<open>Notions used in the statements\<close>

text \<open>
  The slot a plain transport gets (no \<open>TransportConfig\<close>), an entry as \<open>CoreLogger.info\<close>
  builds it, and a logger before any \<open>configure\<close>; they serve as concrete inputs.
\<close>

definition default_config :: "LogTransport \<Rightarrow> slot_config" where
  "default_config tr = fst (TransportSlot tr None)"

definition info_entry :: "string \<Rightarrow> LogEntry" where
  "info_entry m = \<lparr>level = ''info'', msg = m, time = ''2026-01-01T00:00:00.000Z'',
     service = ''app'', scope = None, meta = None\<rparr>"

definition initial_logger :: logger where
  "initial_logger = \<lparr>lg_level = ''info'', lg_mode = ''pretty'', lg_serviceName = ''app'',
     lg_slots = [], lg_retired = [], lg_constructed = 0, lg_console = []\<rparr>"

text \<open>A sequence of admission checks on one slot, at the given clock values.\<close>

fun checks :: "slot_config \<Rightarrow> int list \<Rightarrow> slot \<Rightarrow> bool list \<times> slot" where
  "checks cfg [] s = ([], s)"
| "checks cfg (now # rest) s =
     (let r = isRateLimited cfg now s; rs = checks cfg rest (snd r) in (fst r # fst rs, snd rs))"

text \<open>
  The rate limiter as the specification words it (section 4.2): the window is reset
  when more than one second has elapsed since its start; then a limit \<open>\<le> 0\<close> never
  limits, a counter that has reached the limit rejects, anything else counts and admits.
  This definition follows the specification, not the source; it is compared with
  \<open>isRateLimited\<close> below.
\<close>

definition isRateLimited_spec :: "slot_config \<Rightarrow> int \<Rightarrow> slot \<Rightarrow> bool \<times> slot" where
  "isRateLimited_spec cfg now s =
     (let s1 = (if now - rateLimitWindowStart s > 1000
                then s\<lparr>rateLimitWindowStart := now, rateLimitCount := 0\<rparr> else s)
      in if rateLimit cfg \<le> 0 then (False, s1)
         else if rateLimitCount s1 \<ge> rateLimit cfg then (True, s1)
         else (False, s1\<lparr>rateLimitCount := rateLimitCount s1 + 1\<rparr>))"

text \<open>
  \<open>unfinished t\<close>: the activation is still inside its loop. \<open>made t\<close>: the number of write
  calls the activation has made, read off \<open>attempt\<close> (one more than \<open>attempt\<close>, except
  during a retry delay, when \<open>attempt\<close> is already incremented for the call to come).
\<close>

definition unfinished :: "task \<Rightarrow> bool" where
  "unfinished t = (case t_phase t of Finished ok \<Rightarrow> False | _ \<Rightarrow> True)"

definition made :: "task \<Rightarrow> nat" where
  "made t = (if t_phase t = Sleeping then nat (t_attempt t) else Suc (nat (t_attempt t)))"

text \<open>
  The first attempts among the write calls, in call order; the entries of their
  payloads; the batches of the unfinished activations.
\<close>

definition first_attempts :: "slot \<Rightarrow> payload list" where
  "first_attempts s = map snd (filter (\<lambda>w. fst w = 0) (writes s))"

definition handed_over :: "slot \<Rightarrow> LogEntry list" where
  "handed_over s = concat (map entries_of (first_attempts s))"

definition in_flight :: "slot \<Rightarrow> LogEntry list list" where
  "in_flight s = map t_batch (filter unfinished (tasks s))"

text \<open>
  A write call follows the one before it either as a first attempt or as the next
  attempt with the same payload.
\<close>

definition link :: "int \<times> payload \<Rightarrow> int \<times> payload \<Rightarrow> bool" where
  "link w v = (fst v = 0 \<or> (fst v = fst w + 1 \<and> snd v = snd w))"

definition chain_ok :: "(int \<times> payload) list \<Rightarrow> bool" where
  "chain_ok ws = ((case ws of [] \<Rightarrow> True | w # r \<Rightarrow> fst w = 0) \<and> successively link ws)"

subsection \<open>Invariants of the event loop\<close>

text \<open>
  \<open>quiet cfg\<close>: the transport never calls the logger from inside \<open>write\<close>. \<open>calm cb cfg\<close>:
  moreover \<open>cb\<close> does nothing when there is no logger call to run, as \<open>callbacks\<close> does.

  The invariants \<open>guard_inv\<close>, \<open>calls_inv\<close>, \<open>fifo_inv\<close>, \<open>batch_inv\<close> and \<open>drain_inv\<close> below
  are shown for the reachable states of a slot whose transport is quiet; \<open>queue_inv\<close> and
  \<open>retry_inv\<close> are shown for every transport. \<open>res_ok\<close> and \<open>step_ok\<close> describe what the
  retry loop of a quiet transport returns: \<open>attempt\<close> has not decreased, the slot is as
  before but for the call log, and the calls added are the next attempts of the batch.
\<close>

definition quiet :: "slot_config \<Rightarrow> bool" where
  "quiet cfg = (\<forall>h. fst (transport cfg h) = [])"

definition calm :: "reentry \<Rightarrow> slot_config \<Rightarrow> bool" where
  "calm cb cfg = (quiet cfg \<and> (\<forall>s. cb [] s = (False, s)))"

definition res_ok :: "int \<Rightarrow> slot \<Rightarrow> int \<times> phase \<times> slot \<Rightarrow> bool" where
  "res_ok a s r = (a \<le> fst r \<and> (fst (snd r) = Sleeping \<longrightarrow> a + 1 \<le> fst r) \<and>
                   fst (snd r) \<noteq> Running \<and> snd (snd r) = s\<lparr>writes := writes (snd (snd r))\<rparr>)"

definition step_ok :: "task \<Rightarrow> slot \<Rightarrow> int \<times> phase \<times> slot \<Rightarrow> bool" where
  "step_ok t s r =
     (\<exists>j. snd (snd r) =
            s\<lparr>writes := writes s @ map (\<lambda>i. (int (made t) + int i, payload_of (t_batch t))) [0..<j]\<rparr> \<and>
          fst (snd r) \<noteq> Running \<and>
          made (t\<lparr>t_attempt := fst r, t_phase := fst (snd r)\<rparr>) = made t + j)"

definition task_ok :: "slot \<Rightarrow> task \<Rightarrow> bool" where
  "task_ok s t = (t_id t < next_id s \<and> t_batch t \<noteq> [] \<and> 0 \<le> t_attempt t \<and>
                  t_phase t \<noteq> Running \<and> (t_phase t = Sleeping \<longrightarrow> 1 \<le> t_attempt t))"

definition guard_inv :: "slot \<Rightarrow> bool" where
  "guard_inv s = ((flushPromise s = None \<and> tasks s = []) \<or>
                  (\<exists>t. tasks s = [t] \<and> flushPromise s = Some (t_id t) \<and> task_ok s t))"

definition calls_inv :: "slot \<Rightarrow> bool" where
  "calls_inv s =
     (chain_ok (writes s) \<and>
      (\<forall>t\<in>set (tasks s).
         suffix (map (\<lambda>i. (int i, payload_of (t_batch t))) [0..<made t]) (writes s)))"

definition fifo_inv :: "slot \<Rightarrow> bool" where
  "fifo_inv s =
     (subseq (handed_over s @ queue s) (admitted s) \<and>
      mset (admitted s) = mset (handed_over s) + mset (queue s) + mset (evicted s))"

definition batch_inv :: "slot \<Rightarrow> bool" where
  "batch_inv s =
     (\<exists>F. map entries_of (first_attempts s) = F @ in_flight s \<and>
          subseq (delivered s) F \<and> mset F = mset (delivered s) + mset (discarded s))"

definition log_inv :: "slot \<Rightarrow> bool" where
  "log_inv s = (guard_inv s \<and> calls_inv s \<and> fifo_inv s \<and> batch_inv s)"

text \<open>
  The queue holds the most recently admitted entries, within the capacity; the batch of
  an activation formed when \<open>t_upto\<close> entries had been admitted holds the most recent
  ones of these.
\<close>

definition queue_inv :: "slot_config \<Rightarrow> slot \<Rightarrow> bool" where
  "queue_inv cfg s =
     (suffix (queue s) (admitted s) \<and>
      (maxQueueSize cfg > 0 \<longrightarrow> int (length (queue s)) \<le> maxQueueSize cfg) \<and>
      (\<forall>t\<in>set (tasks s). t_upto t \<le> length (admitted s) \<and>
                           suffix (t_batch t) (take (t_upto t) (admitted s))))"

text \<open>
  The value of \<open>attempt\<close> stays between \<open>0\<close> and \<open>maxRetries\<close> (\<open>0\<close> when \<open>maxRetries\<close> is
  negative), at every write call and in every activation.
\<close>

definition attempt_ok :: "slot_config \<Rightarrow> int \<Rightarrow> bool" where
  "attempt_ok cfg a = (0 \<le> a \<and> a \<le> max 0 (maxRetries cfg))"

definition retry_inv :: "slot_config \<Rightarrow> slot \<Rightarrow> bool" where
  "retry_inv cfg s =
     (list_all (\<lambda>w. attempt_ok cfg (fst w)) (writes s) \<and>
      list_all (\<lambda>t. attempt_ok cfg (t_attempt t)) (tasks s))"

definition basic_inv :: "slot_config \<Rightarrow> slot \<Rightarrow> bool" where
  "basic_inv cfg s = (queue_inv cfg s \<and> retry_inv cfg s)"

text \<open>
  Two properties of a way \<open>cb\<close> of running the logger calls made from inside a write: it
  keeps \<open>basic_inv\<close>, and it only adds to the call log.
\<close>

definition keeps :: "slot_config \<Rightarrow> reentry \<Rightarrow> bool" where
  "keeps cfg cb = (\<forall>cs s. basic_inv cfg s \<longrightarrow> basic_inv cfg (snd (cb cs s)))"

definition extends :: "reentry \<Rightarrow> bool" where
  "extends cb = (\<forall>cs s. prefix (writes s) (writes (snd (cb cs s))))"

text \<open>
  What is known about a pending caller of \<open>flush()\<close>: its mark is in range; and once it
  follows the write its own call started, no entry admitted before the call is in the
  queue or in the batch of any other activation.
\<close>

definition caller_ok :: "slot \<Rightarrow> nat option \<Rightarrow> bool" where
  "caller_ok s who =
     (case who of None \<Rightarrow> True
      | Some f \<Rightarrow> f < length (flush_marks s) \<and> flush_marks s ! f \<le> length (admitted s))"

definition waiter_ok :: "slot \<Rightarrow> waiter \<Rightarrow> bool" where
  "waiter_ok s w =
     (w_on w < next_id s \<and> caller_ok s (w_caller w) \<and>
      (case w_caller w of None \<Rightarrow> True
       | Some f \<Rightarrow>
           w_kind w = Follow \<longrightarrow>
             flush_marks s ! f + length (queue s) \<le> length (admitted s) \<and>
             (\<forall>t\<in>set (tasks s). t_id t \<noteq> w_on w \<longrightarrow>
                flush_marks s ! f + length (t_batch t) \<le> t_upto t)))"

definition drain_inv :: "slot \<Rightarrow> bool" where
  "drain_inv s = ((\<forall>w\<in>set (waiters s). waiter_ok s w) \<and> (\<forall>d\<in>set (flush_done s). snd d))"

section \<open>Properties\<close>

subsection \<open>Concrete inputs\<close>

lemma default_config_simps [simp]:
  "transport (default_config tr) = tr"
  "minLevel (default_config tr) = None"
  "filter_fn (default_config tr) = None"
  "batchSize (default_config tr) = 1"
  "flushInterval (default_config tr) = 0"
  "maxQueueSize (default_config tr) = 0"
  "rateLimit (default_config tr) = 0"
  "maxRetries (default_config tr) = 0"
  "retryDelay (default_config tr) = 0"
  by (simp_all add: default_config_def TransportSlot_def or_default_def)

subsection \<open>The rate limiter\<close>

lemma checks_window:
  "rateLimit cfg > 0 \<Longrightarrow> \<forall>t\<in>set ts. t - rateLimitWindowStart s < 1000 \<Longrightarrow>
   fst (checks cfg ts s) =
     replicate (min (nat (rateLimit cfg - rateLimitCount s)) (length ts)) False @
     replicate (length ts - nat (rateLimit cfg - rateLimitCount s)) True"
proof (induction ts arbitrary: s)
  case Nil
  then show ?case by simp
next
  case (Cons t ts)
  have w: "\<not> (t - rateLimitWindowStart s \<ge> 1000)" using Cons.prems(2) by simp
  show ?case
  proof (cases "rateLimitCount s \<ge> rateLimit cfg")
    case True
    then have r: "isRateLimited cfg t s = (True, s)"
      using Cons.prems(1) w by (simp add: isRateLimited_def)
    have "fst (checks cfg ts s) = replicate (length ts) True"
      using Cons.IH[of s] Cons.prems True by simp
    then show ?thesis using r True by (simp add: Let_def)
  next
    case False
    let ?s' = "s\<lparr>rateLimitCount := rateLimitCount s + 1\<rparr>"
    have r: "isRateLimited cfg t s = (False, ?s')"
      using Cons.prems(1) w False by (simp add: isRateLimited_def)
    have ih: "fst (checks cfg ts ?s') =
       replicate (min (nat (rateLimit cfg - rateLimitCount ?s')) (length ts)) False @
       replicate (length ts - nat (rateLimit cfg - rateLimitCount ?s')) True"
      using Cons.IH[of ?s'] Cons.prems by simp
    have n: "nat (rateLimit cfg - rateLimitCount s) = Suc (nat (rateLimit cfg - (rateLimitCount s + 1)))"
      using False by simp
    show ?thesis using r ih n by (simp add: Let_def)
  qed
qed

lemma checks_window_start:
  "rateLimit cfg > 0 \<Longrightarrow> \<forall>t\<in>set ts. t - rateLimitWindowStart s < 1000 \<Longrightarrow>
   rateLimitWindowStart (snd (checks cfg ts s)) = rateLimitWindowStart s"
proof (induction ts arbitrary: s)
  case Nil
  then show ?case by simp
next
  case (Cons t ts)
  have "rateLimitWindowStart (snd (isRateLimited cfg t s)) = rateLimitWindowStart s"
    using Cons.prems by (simp add: isRateLimited_def Let_def)
  then show ?case using Cons.IH[of "snd (isRateLimited cfg t s)"] Cons.prems
    by (simp add: Let_def)
qed

lemma isRateLimited_reset:
  "rateLimit cfg > 0 \<Longrightarrow> now - rateLimitWindowStart s \<ge> 1000 \<Longrightarrow>
   isRateLimited cfg now s = (False, s\<lparr>rateLimitWindowStart := now, rateLimitCount := 1\<rparr>)"
  by (simp add: isRateLimited_def Let_def)

text \<open>
  Claim C5, as the specification words it, does not hold: the source resets the window
  when at least 1000 ms have elapsed, not when more than one second has. One second
  after an admission under \<open>rateLimit = 1\<close> the source admits again, where the wording
  of the specification still rejects.
\<close>

theorem rate_limit_boundary_counterexample:
  "fst (isRateLimited ((default_config (\<lambda>h. ([], Returns)))\<lparr>rateLimit := 1\<rparr>) 6000
          (snd (isRateLimited ((default_config (\<lambda>h. ([], Returns)))\<lparr>rateLimit := 1\<rparr>) 5000 new_slot)))
     \<noteq>
   fst (isRateLimited_spec ((default_config (\<lambda>h. ([], Returns)))\<lparr>rateLimit := 1\<rparr>) 6000
          (snd (isRateLimited_spec ((default_config (\<lambda>h. ([], Returns)))\<lparr>rateLimit := 1\<rparr>) 5000 new_slot)))"
  by (simp add: isRateLimited_def isRateLimited_spec_def new_slot_def Let_def)

text \<open>
  Claim C5, amended: a limit \<open>\<le> 0\<close> never limits and leaves the window alone. With a
  limit \<open>R > 0\<close>, a check made at least 1000 ms after the window start resets the start
  to now and the counter to zero, and admits; a check inside the window rejects exactly
  when the counter has reached \<open>R\<close>. So \<open>R + k\<close> checks of which the first opens a window
  and the others fall less than 1000 ms after it give \<open>R\<close> admissions followed by \<open>k\<close>
  rejections, and the first check at least 1000 ms after the window start is admitted
  again, in a new window.
\<close>

theorem rate_limiter_window:
  "(rateLimit cfg \<le> 0 \<longrightarrow> isRateLimited cfg now s = (False, s)) \<and>
   (rateLimit cfg > 0 \<and> now - rateLimitWindowStart s \<ge> 1000 \<longrightarrow>
      isRateLimited cfg now s = (False, s\<lparr>rateLimitWindowStart := now, rateLimitCount := 1\<rparr>)) \<and>
   (rateLimit cfg > 0 \<and> now - rateLimitWindowStart s < 1000 \<longrightarrow>
      isRateLimited cfg now s =
        (if rateLimitCount s \<ge> rateLimit cfg then (True, s)
         else (False, s\<lparr>rateLimitCount := rateLimitCount s + 1\<rparr>))) \<and>
   (rateLimit cfg > 0 \<and> t0 - rateLimitWindowStart s \<ge> 1000 \<and> (\<forall>t\<in>set ts. t - t0 < 1000) \<and>
    Suc (length ts) = nat (rateLimit cfg) + k \<longrightarrow>
      fst (checks cfg (t0 # ts) s) = replicate (nat (rateLimit cfg)) False @ replicate k True \<and>
      (\<forall>t1. t1 - t0 \<ge> 1000 \<longrightarrow>
         isRateLimited cfg t1 (snd (checks cfg (t0 # ts) s)) =
           (False, (snd (checks cfg (t0 # ts) s))\<lparr>rateLimitWindowStart := t1, rateLimitCount := 1\<rparr>)))"
proof (intro conjI impI)
  assume "rateLimit cfg \<le> 0"
  then show "isRateLimited cfg now s = (False, s)" by (simp add: isRateLimited_def)
next
  assume "rateLimit cfg > 0 \<and> now - rateLimitWindowStart s \<ge> 1000"
  then show "isRateLimited cfg now s = (False, s\<lparr>rateLimitWindowStart := now, rateLimitCount := 1\<rparr>)"
    by (simp add: isRateLimited_reset)
next
  assume "rateLimit cfg > 0 \<and> now - rateLimitWindowStart s < 1000"
  then show "isRateLimited cfg now s =
        (if rateLimitCount s \<ge> rateLimit cfg then (True, s)
         else (False, s\<lparr>rateLimitCount := rateLimitCount s + 1\<rparr>))"
    by (simp add: isRateLimited_def)
next
  assume a: "rateLimit cfg > 0 \<and> t0 - rateLimitWindowStart s \<ge> 1000 \<and> (\<forall>t\<in>set ts. t - t0 < 1000) \<and>
    Suc (length ts) = nat (rateLimit cfg) + k"
  let ?s0 = "s\<lparr>rateLimitWindowStart := t0, rateLimitCount := 1\<rparr>"
  have r0: "isRateLimited cfg t0 s = (False, ?s0)" using a by (simp add: isRateLimited_reset)
  have w: "\<forall>t\<in>set ts. t - rateLimitWindowStart ?s0 < 1000" using a by simp
  have c: "fst (checks cfg ts ?s0) =
     replicate (min (nat (rateLimit cfg - 1)) (length ts)) False @
     replicate (length ts - nat (rateLimit cfg - 1)) True"
    using checks_window[of cfg ts ?s0] a w by simp
  have l: "length ts = nat (rateLimit cfg - 1) + k" using a by linarith
  have n: "nat (rateLimit cfg) = Suc (nat (rateLimit cfg - 1))" using a by linarith
  show "fst (checks cfg (t0 # ts) s) = replicate (nat (rateLimit cfg)) False @ replicate k True"
    using r0 c l n by (simp add: Let_def)
  have st: "rateLimitWindowStart (snd (checks cfg (t0 # ts) s)) = t0"
    using r0 checks_window_start[of cfg ts ?s0] a w by (simp add: Let_def)
  show "\<forall>t1. t1 - t0 \<ge> 1000 \<longrightarrow>
         isRateLimited cfg t1 (snd (checks cfg (t0 # ts) s)) =
           (False, (snd (checks cfg (t0 # ts) s))\<lparr>rateLimitWindowStart := t1, rateLimitCount := 1\<rparr>)"
    using a st isRateLimited_reset[of cfg _ "snd (checks cfg (t0 # ts) s)"] by simp
qed

theorem rate_limiter_window_witness:
  "fst (checks ((default_config (\<lambda>h. ([], Returns)))\<lparr>rateLimit := 2\<rparr>) [5000, 5100, 5999] new_slot)
     = [False, False, True] \<and>
   fst (isRateLimited ((default_config (\<lambda>h. ([], Returns)))\<lparr>rateLimit := 2\<rparr>) 6000
     (snd (checks ((default_config (\<lambda>h. ([], Returns)))\<lparr>rateLimit := 2\<rparr>) [5000, 5100, 5999] new_slot)))
     = False"
proof -
  let ?c = "(default_config (\<lambda>h. ([], Returns)))\<lparr>rateLimit := 2\<rparr>"
  have h: "rateLimit ?c > 0 \<and> 5000 - rateLimitWindowStart new_slot \<ge> 1000 \<and>
           (\<forall>t\<in>set [5100, 5999::int]. t - 5000 < 1000) \<and>
           Suc (length [5100, 5999::int]) = nat (rateLimit ?c) + 1"
    by (simp add: new_slot_def)
  from rate_limiter_window[of ?c 0 new_slot 5000 "[5100, 5999]" 1] h
  have "fst (checks ?c (5000 # [5100, 5999]) new_slot) = replicate (nat (rateLimit ?c)) False @ replicate 1 True \<and>
      (\<forall>t1. t1 - 5000 \<ge> 1000 \<longrightarrow>
         isRateLimited ?c t1 (snd (checks ?c (5000 # [5100, 5999]) new_slot)) =
           (False, (snd (checks ?c (5000 # [5100, 5999]) new_slot))\<lparr>rateLimitWindowStart := t1, rateLimitCount := 1\<rparr>))"
    by blast
  then have a: "fst (checks ?c [5000, 5100, 5999] new_slot) = replicate (nat (rateLimit ?c)) False @ replicate 1 True"
    and b: "isRateLimited ?c 6000 (snd (checks ?c [5000, 5100, 5999] new_slot)) =
           (False, (snd (checks ?c [5000, 5100, 5999] new_slot))\<lparr>rateLimitWindowStart := 6000, rateLimitCount := 1\<rparr>)"
    by auto
  have r: "replicate (nat (rateLimit ?c)) False = [False, False]"
    by (simp add: numeral_2_eq_2)
  show ?thesis using a b r by simp
qed

subsection \<open>Configuration errors\<close>

lemma validateConfig_throws_iff:
  "(\<exists>err. validateConfig config = Inl err) \<longleftrightarrow>
     ((\<exists>l. c_level config = Some l \<and> l \<notin> {''debug'', ''info'', ''warn'', ''error''}) \<or>
      (\<exists>m. c_mode config = Some m \<and> m \<notin> {''pretty'', ''json'', ''silent''}) \<or>
      (\<exists>n. c_serviceName config = Some n \<and> trim n = []))"
  by (auto simp: validateConfig_def isValidLevel_def isValidMode_def VALID_LEVELS_def
        VALID_MODES_def LEVEL_ORDER_def split: option.splits)

text \<open>
  Claim C9: \<open>configure\<close> throws exactly when the level is present and not one of the four
  levels, or the mode is present and not one of the three modes, or the service name is
  present and trims to the empty string; and when it throws, the logger is as before:
  level, mode, service name and slots unchanged, no slot constructed, none destroyed.
\<close>

theorem configure_throws_iff_and_atomic:
  "(fst (configure config lg) \<noteq> None \<longleftrightarrow>
     ((\<exists>l. c_level config = Some l \<and> l \<notin> {''debug'', ''info'', ''warn'', ''error''}) \<or>
      (\<exists>m. c_mode config = Some m \<and> m \<notin> {''pretty'', ''json'', ''silent''}) \<or>
      (\<exists>n. c_serviceName config = Some n \<and> trim n = []))) \<and>
   (fst (configure config lg) \<noteq> None \<longrightarrow> snd (configure config lg) = lg)"
proof -
  have a: "fst (configure config lg) \<noteq> None \<longleftrightarrow> (\<exists>err. validateConfig config = Inl err)"
    by (cases "validateConfig config") (simp_all add: configure_def Let_def)
  have b: "fst (configure config lg) \<noteq> None \<longrightarrow> snd (configure config lg) = lg"
    by (cases "validateConfig config") (simp_all add: configure_def Let_def)
  show ?thesis using a b validateConfig_throws_iff[of config] by simp
qed

theorem configure_throws_witness:
  "fst (configure \<lparr>c_level = Some ''trace'', c_mode = None, c_serviceName = None,
          c_transports = Some [Plain (\<lambda>h. ([], Returns))]\<rparr> initial_logger) \<noteq> None \<and>
   snd (configure \<lparr>c_level = Some ''trace'', c_mode = None, c_serviceName = None,
          c_transports = Some [Plain (\<lambda>h. ([], Returns))]\<rparr> initial_logger) = initial_logger"
  using configure_throws_iff_and_atomic[of "\<lparr>c_level = Some ''trace'', c_mode = None, c_serviceName = None,
          c_transports = Some [Plain (\<lambda>h. ([], Returns))]\<rparr>" initial_logger]
  by simp

subsection \<open>Dispatch and the output mode\<close>




subsection \<open>A filter that throws\<close>

text \<open>
  Claim C3 at a failing input: a slot whose filter predicate throws. The exception
  leaves \<open>enqueue\<close>, and through \<open>dispatch\<close> it leaves \<open>CoreLogger.write\<close>, whatever the
  room \<open>d\<close> on the call stack.
\<close>

theorem enqueue_filter_throws:
  "enqueue (callbacks d ((default_config (\<lambda>h. ([], Returns)))\<lparr>filter_fn := Some (\<lambda>e. Inl (JsError ''boom''))\<rparr>))
     ((default_config (\<lambda>h. ([], Returns)))\<lparr>filter_fn := Some (\<lambda>e. Inl (JsError ''boom''))\<rparr>)
     (info_entry ''hello'') 0 new_slot = Inl (JsError ''boom'') \<and>
   fst (logger_write d
     (initial_logger\<lparr>lg_slots :=
        [((default_config (\<lambda>h. ([], Returns)))\<lparr>filter_fn := Some (\<lambda>e. Inl (JsError ''boom''))\<rparr>, new_slot)]\<rparr>)
     ''info'' ''hello'' None None None ''2026-01-01T00:00:00.000Z'' 0) = Some (JsError ''boom'')"
  by (simp add: enqueue_def logger_write_def shouldLog_def initial_logger_def Let_def
        LEVEL_ORDER_def mergedMeta_def)

subsection \<open>The retry loop of a transport that does not call the logger\<close>

declare attempt_loop.simps [simp del]

lemma calm_callbacks: "quiet cfg \<Longrightarrow> calm (callbacks d cfg) cfg"
  by (simp add: calm_def)

lemma attempt_loop_calm:
  assumes q: "calm cb cfg"
  shows "attempt_loop cb cfg p a s =
     (let s1 = s\<lparr>writes := writes s @ [(a, p)]\<rparr> in
      case snd (transport cfg (map snd (writes s) @ [p])) of
        Returns \<Rightarrow> (a, Finished True, s1)
      | Pending \<Rightarrow> (a, Awaiting, s1)
      | Throws \<Rightarrow>
          if a \<ge> maxRetries cfg then (a, Finished False, s1)
          else if retryDelay cfg > 0 then (a + 1, Sleeping, s1)
          else attempt_loop cb cfg p (a + 1) s1)"
proof -
  have c: "\<And>h. fst (transport cfg h) = []"
    using q by (simp add: calm_def quiet_def)
  have e: "\<And>u. cb [] u = (False, u)" using q by (simp add: calm_def)
  show ?thesis
    by (subst attempt_loop.simps) (simp add: Let_def c e split: write_result.splits)
qed

lemma attempt_loop_shape:
  assumes q: "calm cb cfg"
  shows "\<exists>k. snd (snd (attempt_loop cb cfg p a s)) =
             s\<lparr>writes := writes s @ map (\<lambda>i. (a + int i, p)) [0..<Suc k]\<rparr> \<and>
           fst (snd (attempt_loop cb cfg p a s)) \<noteq> Running \<and>
           fst (attempt_loop cb cfg p a s) =
             a + int k + (if fst (snd (attempt_loop cb cfg p a s)) = Sleeping then 1 else 0)"
proof (induction "nat (maxRetries cfg - a)" arbitrary: a s rule: less_induct)
  case less
  let ?s1 = "s\<lparr>writes := writes s @ [(a, p)]\<rparr>"
  note eq = attempt_loop_calm[OF q, of p a s]
  show ?case
  proof (cases "snd (transport cfg (map snd (writes s) @ [p]))")
    case Returns
    then have "attempt_loop cb cfg p a s = (a, Finished True, ?s1)"
      using eq by (simp add: Let_def)
    then show ?thesis by (intro exI[of _ 0]) simp
  next
    case Pending
    then have "attempt_loop cb cfg p a s = (a, Awaiting, ?s1)"
      using eq by (simp add: Let_def)
    then show ?thesis by (intro exI[of _ 0]) simp
  next
    case Throws
    show ?thesis
    proof (cases "a \<ge> maxRetries cfg")
      case True
      then have "attempt_loop cb cfg p a s = (a, Finished False, ?s1)"
        using Throws eq by (simp add: Let_def)
      then show ?thesis by (intro exI[of _ 0]) simp
    next
      case False
      show ?thesis
      proof (cases "retryDelay cfg > 0")
        case True
        then have "attempt_loop cb cfg p a s = (a + 1, Sleeping, ?s1)"
          using Throws False eq by (simp add: Let_def)
        then show ?thesis by (intro exI[of _ 0]) simp
      next
        case nd: False
        have e: "attempt_loop cb cfg p a s = attempt_loop cb cfg p (a + 1) ?s1"
          using Throws False nd eq by (simp add: Let_def)
        have lt: "nat (maxRetries cfg - (a + 1)) < nat (maxRetries cfg - a)"
          using False by linarith
        from less[OF lt, of ?s1]
        obtain k where k: "snd (snd (attempt_loop cb cfg p (a + 1) ?s1)) =
              ?s1\<lparr>writes := writes ?s1 @ map (\<lambda>i. (a + 1 + int i, p)) [0..<Suc k]\<rparr>"
           "fst (snd (attempt_loop cb cfg p (a + 1) ?s1)) \<noteq> Running"
           "fst (attempt_loop cb cfg p (a + 1) ?s1) =
              a + 1 + int k + (if fst (snd (attempt_loop cb cfg p (a + 1) ?s1)) = Sleeping then 1 else 0)"
          by blast
        have m: "map (\<lambda>i. (a + int i, p)) [0..<Suc (Suc k)] =
                 (a, p) # map (\<lambda>i. (a + 1 + int i, p)) [0..<Suc k]"
          by (simp add: upt_rec[of 0] map_Suc_upt[symmetric] del: upt_Suc)
        show ?thesis
          apply (intro exI[of _ "Suc k"])
          using k m e by (simp del: upt_Suc)
      qed
    qed
  qed
qed

text \<open>The loop reads nothing of the slot but the call log, and changes nothing else.\<close>

lemma attempt_loop_indep:
  assumes q: "calm cb cfg"
  shows "writes s = writes s0 \<Longrightarrow>
         attempt_loop cb cfg p a s =
           (fst (attempt_loop cb cfg p a s0), fst (snd (attempt_loop cb cfg p a s0)),
            s\<lparr>writes := writes (snd (snd (attempt_loop cb cfg p a s0)))\<rparr>)"
proof (induction "nat (maxRetries cfg - a)" arbitrary: a s s0 rule: less_induct)
  case less
  let ?s1 = "s\<lparr>writes := writes s @ [(a, p)]\<rparr>"
  let ?sz = "s0\<lparr>writes := writes s0 @ [(a, p)]\<rparr>"
  note eq = attempt_loop_calm[OF q, of p a s] attempt_loop_calm[OF q, of p a s0]
  note w = less.prems
  show ?case
  proof (cases "snd (transport cfg (map snd (writes s0) @ [p])) = Throws \<and>
                \<not> a \<ge> maxRetries cfg \<and> \<not> retryDelay cfg > 0")
    case False
    then show ?thesis using eq w
      by (cases "snd (transport cfg (map snd (writes s0) @ [p]))") (auto simp: Let_def)
  next
    case True
    have t: "snd (transport cfg (map snd (writes s) @ [p])) = Throws" using True w by simp
    have e1: "attempt_loop cb cfg p a s = attempt_loop cb cfg p (a + 1) ?s1"
      using True t eq(1) by (simp add: Let_def)
    have e2: "attempt_loop cb cfg p a s0 = attempt_loop cb cfg p (a + 1) ?sz"
      using True eq(2) by (simp add: Let_def)
    note e = e1 e2
    have lt: "nat (maxRetries cfg - (a + 1)) < nat (maxRetries cfg - a)"
      using True by linarith
    have w1: "writes ?s1 = writes ?sz" using w by simp
    have ih: "attempt_loop cb cfg p (a + 1) ?s1 =
        (fst (attempt_loop cb cfg p (a + 1) ?sz), fst (snd (attempt_loop cb cfg p (a + 1) ?sz)),
         ?s1\<lparr>writes := writes (snd (snd (attempt_loop cb cfg p (a + 1) ?sz)))\<rparr>)"
      by (rule less.hyps[OF lt w1])
    show ?thesis unfolding e ih by simp
  qed
qed

lemma attempt_loop_frame:
  assumes q: "calm cb cfg"
  shows "snd (snd (attempt_loop cb cfg p a s)) =
           s\<lparr>writes := writes (snd (snd (attempt_loop cb cfg p a s)))\<rparr>"
proof -
  have "attempt_loop cb cfg p a s =
          (fst (attempt_loop cb cfg p a s), fst (snd (attempt_loop cb cfg p a s)),
           s\<lparr>writes := writes (snd (snd (attempt_loop cb cfg p a s)))\<rparr>)"
    by (rule attempt_loop_indep[OF q refl])
  then have "snd (snd (attempt_loop cb cfg p a s)) =
      snd (snd (fst (attempt_loop cb cfg p a s), fst (snd (attempt_loop cb cfg p a s)),
           s\<lparr>writes := writes (snd (snd (attempt_loop cb cfg p a s)))\<rparr>))"
    by (rule arg_cong)
  then show ?thesis by (simp only: snd_conv)
qed

subsection \<open>The guard: one activation at a time\<close>

lemma res_ok_attempt_loop: "calm cb cfg \<Longrightarrow> res_ok a s (attempt_loop cb cfg p a s)"
  using attempt_loop_shape[of cb cfg p a s] by (auto simp: res_ok_def)

lemma res_ok_on_failure: "calm cb cfg \<Longrightarrow> res_ok a s (on_failure cb cfg p a s)"
  using res_ok_attempt_loop[of cb cfg "a + 1" s p]
  by (auto simp: on_failure_def res_ok_def)

lemma res_ok_success: "res_ok a s (a, Finished True, s)"
  by (simp add: res_ok_def)

lemma tasks_set_task:
  "tasks s = [t] \<Longrightarrow> tasks (set_task (t_id t) a ph s) = [t\<lparr>t_attempt := a, t_phase := ph\<rparr>]"
  by (simp add: set_task_def)

lemma set_task_frame [simp]:
  "flushPromise (set_task p a ph s) = flushPromise s"
  "next_id (set_task p a ph s) = next_id s"
  "queue (set_task p a ph s) = queue s"
  "admitted (set_task p a ph s) = admitted s"
  "evicted (set_task p a ph s) = evicted s"
  "waiters (set_task p a ph s) = waiters s"
  "flush_marks (set_task p a ph s) = flush_marks s"
  "flush_done (set_task p a ph s) = flush_done s"
  "timer (set_task p a ph s) = timer s"
  "writes (set_task p a ph s) = writes s"
  "delivered (set_task p a ph s) = delivered s"
  "discarded (set_task p a ph s) = discarded s"
  "rateLimitCount (set_task p a ph s) = rateLimitCount s"
  "rateLimitWindowStart (set_task p a ph s) = rateLimitWindowStart s"
  by (simp_all add: set_task_def)

lemma tasks_settle:
  "tasks (snd (snd r)) = [t] \<Longrightarrow> tasks (settle t r) = [t\<lparr>t_attempt := fst r, t_phase := fst (snd r)\<rparr>]"
  by (simp add: settle_def Let_def tasks_set_task split: phase.splits)

lemma settle_frame [simp]:
  "flushPromise (settle t r) = flushPromise (snd (snd r))"
  "next_id (settle t r) = next_id (snd (snd r))"
  "queue (settle t r) = queue (snd (snd r))"
  "admitted (settle t r) = admitted (snd (snd r))"
  "evicted (settle t r) = evicted (snd (snd r))"
  "waiters (settle t r) = waiters (snd (snd r))"
  "flush_marks (settle t r) = flush_marks (snd (snd r))"
  "flush_done (settle t r) = flush_done (snd (snd r))"
  "timer (settle t r) = timer (snd (snd r))"
  "writes (settle t r) = writes (snd (snd r))"
  by (simp_all add: settle_def Let_def split: phase.splits)

text \<open>What a result that only extends the call log leaves as it was.\<close>

lemma only_writes:
  assumes "s' = s\<lparr>writes := ws\<rparr>"
  shows "flushPromise s' = flushPromise s" "next_id s' = next_id s" "queue s' = queue s"
    "admitted s' = admitted s" "evicted s' = evicted s" "waiters s' = waiters s"
    "flush_marks s' = flush_marks s" "flush_done s' = flush_done s" "timer s' = timer s"
    "tasks s' = tasks s" "delivered s' = delivered s" "discarded s' = discarded s"
  using assms by simp_all

lemma res_ok_frame:
  assumes "res_ok a s r"
  shows "flushPromise (snd (snd r)) = flushPromise s" "next_id (snd (snd r)) = next_id s"
    "queue (snd (snd r)) = queue s" "admitted (snd (snd r)) = admitted s"
    "evicted (snd (snd r)) = evicted s" "waiters (snd (snd r)) = waiters s"
    "flush_marks (snd (snd r)) = flush_marks s" "flush_done (snd (snd r)) = flush_done s"
    "timer (snd (snd r)) = timer s" "tasks (snd (snd r)) = tasks s"
    "delivered (snd (snd r)) = delivered s" "discarded (snd (snd r)) = discarded s"
proof -
  have e: "snd (snd r) = s\<lparr>writes := writes (snd (snd r))\<rparr>"
    using assms by (simp add: res_ok_def)
  show "flushPromise (snd (snd r)) = flushPromise s" "next_id (snd (snd r)) = next_id s"
    "queue (snd (snd r)) = queue s" "admitted (snd (snd r)) = admitted s"
    "evicted (snd (snd r)) = evicted s" "waiters (snd (snd r)) = waiters s"
    "flush_marks (snd (snd r)) = flush_marks s" "flush_done (snd (snd r)) = flush_done s"
    "timer (snd (snd r)) = timer s" "tasks (snd (snd r)) = tasks s"
    "delivered (snd (snd r)) = delivered s" "discarded (snd (snd r)) = discarded s"
    by (rule only_writes[OF e])+
qed

lemma step_ok_res_ok:
  assumes "step_ok t s r" shows "res_ok (fst r - 1) s r"
proof -
  from assms obtain j where
    "snd (snd r) = s\<lparr>writes := writes s @ map (\<lambda>i. (int (made t) + int i, payload_of (t_batch t))) [0..<j]\<rparr>"
    "fst (snd r) \<noteq> Running"
    by (auto simp: step_ok_def)
  then have "snd (snd r) = s\<lparr>writes := writes (snd (snd r))\<rparr>" "fst (snd r) \<noteq> Running" by simp_all
  then show ?thesis by (simp add: res_ok_def)
qed

lemmas step_ok_frame = res_ok_frame[OF step_ok_res_ok]

lemma guard_inv_settle:
  assumes "guard_inv s" "tasks s = [t]" "res_ok (t_attempt t) s r"
  shows "guard_inv (settle t r)"
  using assms res_ok_frame[OF assms(3)]
  by (auto simp: guard_inv_def tasks_settle task_ok_def res_ok_def)

lemma find_task_single:
  "tasks s = [t] \<Longrightarrow> find_task p s = (if t_id t = p then Some t else None)"
  by (simp add: find_task_def)

lemma find_task_nil: "tasks s = [] \<Longrightarrow> find_task p s = None"
  by (simp add: find_task_def)

lemma guard_inv_cases:
  assumes "guard_inv s"
  obtains (idle) "flushPromise s = None" "tasks s = []"
        | (busy) t where "tasks s = [t]" "flushPromise s = Some (t_id t)" "task_ok s t"
  using assms by (auto simp: guard_inv_def)

lemma guard_inv_writeSettled:
  assumes q: "calm cb cfg" and g: "guard_inv s" shows "guard_inv (writeSettled cb cfg p ok s)"
  using g
proof (cases rule: guard_inv_cases)
  case idle
  then show ?thesis by (simp add: writeSettled_def find_task_nil guard_inv_def)
next
  case (busy t)
  note t = busy
  show ?thesis
    using g t q
    by (auto simp: writeSettled_def find_task_single res_ok_success res_ok_on_failure
          intro!: guard_inv_settle)
qed

lemma guard_inv_sleepDone:
  assumes q: "calm cb cfg" and g: "guard_inv s" shows "guard_inv (sleepDone cb cfg p s)"
  using g
proof (cases rule: guard_inv_cases)
  case idle
  then show ?thesis by (simp add: sleepDone_def find_task_nil guard_inv_def)
next
  case (busy t)
  note t = busy
  show ?thesis
    using g t q
    by (auto simp: sleepDone_def find_task_single res_ok_attempt_loop intro!: guard_inv_settle)
qed

lemma guard_inv_finallyCb: "guard_inv s \<Longrightarrow> guard_inv (finallyCb p s)"
  by (erule guard_inv_cases)
     (auto simp: finallyCb_def find_task_nil find_task_single guard_inv_def split: phase.splits)

text \<open>
  A new activation of a transport that does not call the logger: the slot is as before
  but for the call log, the new activation and the log of outcomes.
\<close>

lemma doWrite_frame:
  assumes q: "calm cb cfg"
  shows "flushPromise (doWrite cb cfg b s) = flushPromise s"
    "next_id (doWrite cb cfg b s) = Suc (next_id s)"
    "queue (doWrite cb cfg b s) = queue s"
    "admitted (doWrite cb cfg b s) = admitted s"
    "evicted (doWrite cb cfg b s) = evicted s"
    "waiters (doWrite cb cfg b s) = waiters s"
    "flush_marks (doWrite cb cfg b s) = flush_marks s"
    "flush_done (doWrite cb cfg b s) = flush_done s"
    "timer (doWrite cb cfg b s) = timer s"
proof -
  let ?s1 = "s\<lparr>tasks := tasks s @ [\<lparr>t_id = next_id s, t_batch = b, t_attempt = 0, t_phase = Running,
               t_upto = length (admitted s)\<rparr>], next_id := Suc (next_id s)\<rparr>"
  note f = res_ok_frame[OF res_ok_attempt_loop[OF q, of 0 ?s1 "payload_of b"]]
  show "flushPromise (doWrite cb cfg b s) = flushPromise s"
    "next_id (doWrite cb cfg b s) = Suc (next_id s)"
    "queue (doWrite cb cfg b s) = queue s"
    "admitted (doWrite cb cfg b s) = admitted s"
    "evicted (doWrite cb cfg b s) = evicted s"
    "waiters (doWrite cb cfg b s) = waiters s"
    "flush_marks (doWrite cb cfg b s) = flush_marks s"
    "flush_done (doWrite cb cfg b s) = flush_done s"
    "timer (doWrite cb cfg b s) = timer s"
    using f by (simp_all add: doWrite_def Let_def)
qed

text \<open>
  The same activation written out: \<open>r\<close> is the result of the loop started in the slot as
  it is, of which the loop reads the call log only.
\<close>

lemma doWrite_calm:
  assumes q: "calm cb cfg" and t: "tasks s = []" and b: "b \<noteq> []"
  shows "doWrite cb cfg b s =
     (let r = attempt_loop cb cfg (payload_of b) 0 s;
          s1 = s\<lparr>tasks := [\<lparr>t_id = next_id s, t_batch = b, t_attempt = fst r,
                              t_phase = fst (snd r), t_upto = length (admitted s)\<rparr>],
                 next_id := Suc (next_id s), writes := writes (snd (snd r))\<rparr>
      in if fst (snd r) = Finished True then s1\<lparr>delivered := delivered s @ [b]\<rparr>
         else if fst (snd r) = Finished False then s1\<lparr>discarded := discarded s @ [b]\<rparr>
         else s1)"
proof -
  let ?t = "\<lparr>t_id = next_id s, t_batch = b, t_attempt = 0, t_phase = Running,
               t_upto = length (admitted s)\<rparr>"
  let ?s1 = "s\<lparr>tasks := tasks s @ [?t], next_id := Suc (next_id s)\<rparr>"
  let ?r = "attempt_loop cb cfg (payload_of b) 0 s"
  have w: "writes ?s1 = writes s" by simp
  note e = attempt_loop_indep[OF q w, of "payload_of b" 0]
  show ?thesis
    unfolding doWrite_def Let_def
    apply (simp only: e b if_False)
    apply (cases "fst (snd ?r)")
    using t by (simp_all add: settle_def Let_def set_task_def)
qed

lemma tasks_doWrite:
  "calm cb cfg \<Longrightarrow> tasks s = [] \<Longrightarrow> b \<noteq> [] \<Longrightarrow>
   tasks (doWrite cb cfg b s) =
     [\<lparr>t_id = next_id s, t_batch = b,
       t_attempt = fst (attempt_loop cb cfg (payload_of b) 0 s),
       t_phase = fst (snd (attempt_loop cb cfg (payload_of b) 0 s)),
       t_upto = length (admitted s)\<rparr>]"
  by (simp add: doWrite_calm Let_def)

lemma writes_doWrite:
  "calm cb cfg \<Longrightarrow> tasks s = [] \<Longrightarrow> b \<noteq> [] \<Longrightarrow>
   writes (doWrite cb cfg b s) = writes (snd (snd (attempt_loop cb cfg (payload_of b) 0 s)))"
  by (simp add: doWrite_calm Let_def)

text \<open>
  \<open>flushNow\<close> with no write in flight and a queue that is not empty, for a transport that
  does not call the logger.
\<close>

lemma flushNow_calm:
  assumes q: "calm cb cfg" and f: "flushPromise s = None" and n: "queue s \<noteq> []"
  shows "flushNow cb cfg who s =
     (let s3 = (doWrite cb cfg (queue s) (s\<lparr>timer := False, queue := []\<rparr>))
                 \<lparr>flushPromise := Some (next_id s)\<rparr>
      in case who of None \<Rightarrow> s3
         | Some f \<Rightarrow> s3\<lparr>waiters := waiters s @ [\<lparr>w_on = next_id s, w_kind = Follow, w_caller = who\<rparr>]\<rparr>)"
  using f n by (simp add: flushNow_def Let_def doWrite_frame[OF q] split: option.splits)

lemma guard_inv_flushNow:
  assumes q: "calm cb cfg" and g: "guard_inv s" shows "guard_inv (flushNow cb cfg who s)"
  using g
proof (cases rule: guard_inv_cases)
  case idle
  note i = idle
  show ?thesis
  proof (cases "queue s = []")
    case True
    then show ?thesis using i
      by (simp add: flushNow_def resolve_caller_def guard_inv_def split: option.splits)
  next
    case False
    let ?s2 = "s\<lparr>timer := False, queue := []\<rparr>"
    have r: "res_ok 0 ?s2 (attempt_loop cb cfg (payload_of (queue s)) 0 ?s2)"
      by (rule res_ok_attempt_loop[OF q])
    have tk: "tasks (doWrite cb cfg (queue s) ?s2) =
       [\<lparr>t_id = next_id s, t_batch = queue s,
         t_attempt = fst (attempt_loop cb cfg (payload_of (queue s)) 0 ?s2),
         t_phase = fst (snd (attempt_loop cb cfg (payload_of (queue s)) 0 ?s2)),
         t_upto = length (admitted s)\<rparr>]"
      using tasks_doWrite[OF q, of ?s2 "queue s"] i False by simp
    show ?thesis using i False r tk
      by (auto simp: flushNow_calm[OF q] Let_def guard_inv_def doWrite_frame[OF q] task_ok_def
            res_ok_def split: option.splits)
  qed
next
  case (busy t)
  then show ?thesis by (simp add: flushNow_def guard_inv_def task_ok_def)
qed

lemma guard_inv_frame:
  "guard_inv s \<Longrightarrow> flushPromise s' = flushPromise s \<Longrightarrow> tasks s' = tasks s \<Longrightarrow>
   next_id s' = next_id s \<Longrightarrow> guard_inv s'"
  by (auto simp: guard_inv_def task_ok_def)

lemma isRateLimited_frame [simp]:
  "flushPromise (snd (isRateLimited cfg now s)) = flushPromise s"
  "tasks (snd (isRateLimited cfg now s)) = tasks s"
  "next_id (snd (isRateLimited cfg now s)) = next_id s"
  "queue (snd (isRateLimited cfg now s)) = queue s"
  "admitted (snd (isRateLimited cfg now s)) = admitted s"
  "evicted (snd (isRateLimited cfg now s)) = evicted s"
  "waiters (snd (isRateLimited cfg now s)) = waiters s"
  "flush_marks (snd (isRateLimited cfg now s)) = flush_marks s"
  "flush_done (snd (isRateLimited cfg now s)) = flush_done s"
  "writes (snd (isRateLimited cfg now s)) = writes s"
  "delivered (snd (isRateLimited cfg now s)) = delivered s"
  "discarded (snd (isRateLimited cfg now s)) = discarded s"
  "timer (snd (isRateLimited cfg now s)) = timer s"
  by (simp_all add: isRateLimited_def Let_def)

lemma push_evict_frame [simp]:
  "flushPromise (push_evict cfg e s) = flushPromise s"
  "tasks (push_evict cfg e s) = tasks s"
  "next_id (push_evict cfg e s) = next_id s"
  "waiters (push_evict cfg e s) = waiters s"
  "flush_marks (push_evict cfg e s) = flush_marks s"
  "flush_done (push_evict cfg e s) = flush_done s"
  "writes (push_evict cfg e s) = writes s"
  "delivered (push_evict cfg e s) = delivered s"
  "discarded (push_evict cfg e s) = discarded s"
  "timer (push_evict cfg e s) = timer s"
  "admitted (push_evict cfg e s) = admitted s @ [e]"
  by (simp_all add: push_evict_def Let_def split: list.splits)

lemma armTimer_frame [simp]:
  "flushPromise (armTimer cfg s) = flushPromise s"
  "tasks (armTimer cfg s) = tasks s"
  "next_id (armTimer cfg s) = next_id s"
  "queue (armTimer cfg s) = queue s"
  "admitted (armTimer cfg s) = admitted s"
  "evicted (armTimer cfg s) = evicted s"
  "waiters (armTimer cfg s) = waiters s"
  "flush_marks (armTimer cfg s) = flush_marks s"
  "flush_done (armTimer cfg s) = flush_done s"
  "writes (armTimer cfg s) = writes s"
  "delivered (armTimer cfg s) = delivered s"
  "discarded (armTimer cfg s) = discarded s"
  by (simp_all add: armTimer_def)

lemma destroy_frame [simp]:
  "flushPromise (destroy s) = flushPromise s"
  "tasks (destroy s) = tasks s"
  "next_id (destroy s) = next_id s"
  "queue (destroy s) = queue s"
  "admitted (destroy s) = admitted s"
  "evicted (destroy s) = evicted s"
  "waiters (destroy s) = waiters s"
  "flush_marks (destroy s) = flush_marks s"
  "flush_done (destroy s) = flush_done s"
  "writes (destroy s) = writes s"
  "delivered (destroy s) = delivered s"
  "discarded (destroy s) = discarded s"
  by (simp_all add: destroy_def)

text \<open>The shape of an enqueue: either nothing but the rate window changes, or the entry
  is pushed and the trigger policy runs.\<close>

lemma enqueue_cases:
  assumes "enqueue cb cfg e now s = Inr s'"
  obtains (dropped) "s' = s"
        | (limited) "s' = snd (isRateLimited cfg now s)"
        | (pushed) "s' = trigger cb cfg (push_evict cfg e (snd (isRateLimited cfg now s)))"
  using assms
  by (auto simp: enqueue_def split: if_splits sum.splits bool.splits prod.splits option.splits)

lemma guard_inv_trigger: "calm cb cfg \<Longrightarrow> guard_inv s \<Longrightarrow> guard_inv (trigger cb cfg s)"
  by (auto simp: trigger_def guard_inv_flushNow intro: guard_inv_frame)

lemma guard_inv_enqueue:
  "calm cb cfg \<Longrightarrow> guard_inv s \<Longrightarrow> enqueue cb cfg e now s = Inr s' \<Longrightarrow> guard_inv s'"
  by (erule enqueue_cases)
     (auto intro!: guard_inv_trigger intro: guard_inv_frame)

lemma guard_inv_flush: "calm cb cfg \<Longrightarrow> guard_inv s \<Longrightarrow> guard_inv (flush cb cfg s)"
  by (auto simp: flush_def Let_def intro!: guard_inv_flushNow intro: guard_inv_frame)

lemma guard_inv_timerFire: "calm cb cfg \<Longrightarrow> guard_inv s \<Longrightarrow> guard_inv (timerFire cb cfg s)"
  by (auto simp: timerFire_def intro!: guard_inv_flushNow intro: guard_inv_frame)

lemma guard_inv_resolve_caller: "guard_inv s \<Longrightarrow> guard_inv (resolve_caller who s)"
  by (auto simp: resolve_caller_def split: option.splits intro: guard_inv_frame)

lemma guard_inv_run_waiter:
  "calm cb cfg \<Longrightarrow> guard_inv s \<Longrightarrow> guard_inv (run_waiter cb cfg w s)"
  by (auto simp: run_waiter_def guard_inv_flushNow guard_inv_resolve_caller split: waiter_kind.splits)

lemma guard_inv_fold:
  "calm cb cfg \<Longrightarrow> guard_inv s \<Longrightarrow> guard_inv (foldl (\<lambda>s' w. run_waiter cb cfg w s') s ws)"
  by (induction ws arbitrary: s) (auto simp: guard_inv_run_waiter)

lemma guard_inv_resolve: "calm cb cfg \<Longrightarrow> guard_inv s \<Longrightarrow> guard_inv (resolve cb cfg p s)"
  by (auto simp: resolve_def intro!: guard_inv_fold intro: guard_inv_frame)

lemma guard_inv_step: "quiet cfg \<Longrightarrow> guard_inv s \<Longrightarrow> guard_inv (step d cfg s ev)"
  using calm_callbacks[of cfg d]
  by (cases ev)
     (auto simp: guard_inv_flush guard_inv_timerFire guard_inv_writeSettled guard_inv_sleepDone
        guard_inv_finallyCb guard_inv_resolve split: sum.splits
        intro: guard_inv_enqueue guard_inv_frame)

lemma run_snoc: "run d cfg (evs @ [ev]) = step d cfg (run d cfg evs) ev"
  by (simp add: run_def)

lemma guard_inv_run: "quiet cfg \<Longrightarrow> guard_inv (run d cfg evs)"
proof (induction evs rule: rev_induct)
  case Nil
  show ?case by (simp add: run_def guard_inv_def new_slot_def)
next
  case (snoc ev evs)
  then show ?case by (simp add: run_snoc guard_inv_step)
qed

subsection \<open>The call log\<close>

lemma entries_of_payload_of [simp]: "entries_of (payload_of b) = b"
  by (cases b) (simp_all add: payload_of_def split: list.splits)

lemma made_pos: "task_ok s t \<Longrightarrow> 1 \<le> made t"
  by (auto simp: made_def task_ok_def)

lemma step_ok_sleepDone:
  assumes q: "calm cb cfg" and "task_ok s t" "t_phase t = Sleeping"
  shows "step_ok t s (attempt_loop cb cfg (payload_of (t_batch t)) (t_attempt t) s)"
proof -
  let ?r = "attempt_loop cb cfg (payload_of (t_batch t)) (t_attempt t) s"
  obtain k where k: "snd (snd ?r) =
        s\<lparr>writes := writes s @ map (\<lambda>i. (t_attempt t + int i, payload_of (t_batch t))) [0..<Suc k]\<rparr>"
      "fst (snd ?r) \<noteq> Running"
      "fst ?r = t_attempt t + int k + (if fst (snd ?r) = Sleeping then 1 else 0)"
    using attempt_loop_shape[OF q, of "payload_of (t_batch t)" "t_attempt t" s] by blast
  have a: "1 \<le> t_attempt t" using assms by (simp add: task_ok_def)
  have m: "int (made t) = t_attempt t" using assms a by (simp add: made_def)
  have "made (t\<lparr>t_attempt := fst ?r, t_phase := fst (snd ?r)\<rparr>) = made t + Suc k"
    using k(3) a assms(3) by (auto simp: made_def nat_add_distrib)
  then show ?thesis unfolding step_ok_def using k(1,2) m by (intro exI[of _ "Suc k"]) simp
qed

lemma step_ok_success:
  "t_phase t = Awaiting \<Longrightarrow> step_ok t s (t_attempt t, Finished True, s)"
  unfolding step_ok_def by (intro exI[of _ 0]) (simp add: made_def)

lemma step_ok_on_failure:
  assumes q: "calm cb cfg" and "task_ok s t" "t_phase t = Awaiting"
  shows "step_ok t s (on_failure cb cfg (payload_of (t_batch t)) (t_attempt t) s)"
proof -
  have a: "0 \<le> t_attempt t" using assms by (simp add: task_ok_def)
  have m: "int (made t) = t_attempt t + 1" using assms a by (simp add: made_def)
  show ?thesis
  proof (cases "t_attempt t \<ge> maxRetries cfg")
    case True
    then show ?thesis unfolding step_ok_def on_failure_def
      using assms(3) by (intro exI[of _ 0]) (simp add: made_def)
  next
    case False
    show ?thesis
    proof (cases "retryDelay cfg > 0")
      case True
      then show ?thesis unfolding step_ok_def on_failure_def
        using assms(3) False a by (intro exI[of _ 0]) (simp add: made_def nat_add_distrib)
    next
      case nd: False
      let ?r = "attempt_loop cb cfg (payload_of (t_batch t)) (t_attempt t + 1) s"
      obtain k where k: "snd (snd ?r) =
            s\<lparr>writes := writes s @ map (\<lambda>i. (t_attempt t + 1 + int i, payload_of (t_batch t))) [0..<Suc k]\<rparr>"
          "fst (snd ?r) \<noteq> Running"
          "fst ?r = t_attempt t + 1 + int k + (if fst (snd ?r) = Sleeping then 1 else 0)"
        using attempt_loop_shape[OF q, of "payload_of (t_batch t)" "t_attempt t + 1" s] by blast
      have "made (t\<lparr>t_attempt := fst ?r, t_phase := fst (snd ?r)\<rparr>) = made t + Suc k"
        using k(3) a assms(3) by (auto simp: made_def nat_add_distrib)
      then have "step_ok t s ?r"
        unfolding step_ok_def using k(1,2) m by (intro exI[of _ "Suc k"]) simp
      then show ?thesis using False nd by (simp add: on_failure_def)
    qed
  qed
qed

lemma first_attempts_block:
  "1 \<le> m \<Longrightarrow> filter (\<lambda>w. fst w = 0) (map (\<lambda>i. (int m + int i, p)) [0..<j]) = []"
  by (induction j) auto

lemma successively_block:
  "successively link (map (\<lambda>i. (a + int i, p)) [0..<j])"
proof (induction j)
  case 0
  show ?case by simp
next
  case (Suc j)
  show ?case
  proof (cases j)
    case 0
    then show ?thesis by simp
  next
    case (Suc j')
    have l: "last (map (\<lambda>i. (a + int i, p)) [0..<j]) = (a + int j', p)"
      using Suc by simp
    have ne: "map (\<lambda>i. (a + int i, p)) [0..<j] \<noteq> []" using Suc by simp
    have e: "map (\<lambda>i. (a + int i, p)) [0..<Suc j] =
             map (\<lambda>i. (a + int i, p)) [0..<j] @ [(a + int j, p)]"
      by simp
    have "link (last (map (\<lambda>i. (a + int i, p)) [0..<j])) (a + int j, p)"
      unfolding l using Suc by (simp add: link_def)
    then show ?thesis
      unfolding e using Suc.IH ne by (simp add: successively_append_iff del: upt_Suc)
  qed
qed

lemma chain_ok_append_retries:
  assumes c: "chain_ok ws"
      and s: "suffix (map (\<lambda>i. (int i, p)) [0..<m]) ws" and m: "1 \<le> m"
  shows "chain_ok (ws @ map (\<lambda>i. (int m + int i, p)) [0..<j])"
proof (cases j)
  case 0
  then show ?thesis using c by simp
next
  case (Suc j')
  obtain m' where m': "m = Suc m'" using m by (cases m) auto
  from s obtain zs where zs: "ws = zs @ map (\<lambda>i. (int i, p)) [0..<m]"
    by (auto simp: suffix_def)
  have l: "last ws = (int m', p)" using zs m' by simp
  have ne: "ws \<noteq> []" using zs m' by simp
  have h: "hd (map (\<lambda>i. (int m + int i, p)) [0..<j]) = (int m, p)"
    using Suc by (simp add: upt_rec[of 0] del: upt_Suc)
  have lk: "link (last ws) (hd (map (\<lambda>i. (int m + int i, p)) [0..<j]))"
    using l h m' by (simp add: link_def)
  have "successively link (ws @ map (\<lambda>i. (int m + int i, p)) [0..<j])"
    using c lk successively_block[of "int m" p j]
    by (simp add: successively_append_iff chain_ok_def)
  moreover have "(case ws @ map (\<lambda>i. (int m + int i, p)) [0..<j] of [] \<Rightarrow> True | w # r \<Rightarrow> fst w = 0)"
    using c ne by (cases ws) (simp_all add: chain_ok_def)
  ultimately show ?thesis by (simp add: chain_ok_def)
qed

lemma chain_ok_append_first:
  assumes c: "chain_ok ws"
  shows "chain_ok (ws @ map (\<lambda>i. (int i, p)) [0..<Suc k])"
proof -
  have h: "hd (map (\<lambda>i. (int i, p)) [0..<Suc k]) = (0, p)"
    by (simp add: upt_rec[of 0] del: upt_Suc)
  have ne: "map (\<lambda>i. (int i, p)) [0..<Suc k] \<noteq> []" by simp
  have "successively link (ws @ map (\<lambda>i. (int i, p)) [0..<Suc k])"
    using c successively_block[of 0 p "Suc k"] h
    by (simp add: successively_append_iff chain_ok_def link_def del: upt_Suc)
  moreover have "(case ws @ map (\<lambda>i. (int i, p)) [0..<Suc k] of [] \<Rightarrow> True | w # r \<Rightarrow> fst w = 0)"
    using c h by (cases ws) (simp_all add: chain_ok_def upt_rec[of 0] del: upt_Suc)
  ultimately show ?thesis by (simp add: chain_ok_def)
qed

lemma suffix_extend_block:
  assumes "suffix (map (\<lambda>i. (int i, p)) [0..<m]) ws"
  shows "suffix (map (\<lambda>i. (int i, p)) [0..<m + j]) (ws @ map (\<lambda>i. (int m + int i, p)) [0..<j])"
proof -
  from assms obtain zs where zs: "ws = zs @ map (\<lambda>i. (int i, p)) [0..<m]"
    by (auto simp: suffix_def)
  have "map (\<lambda>i. (int i, p)) [0..<m + j] =
        map (\<lambda>i. (int i, p)) [0..<m] @ map (\<lambda>i. (int m + int i, p)) [0..<j]"
    by (induction j) (simp_all add: add.commute)
  then show ?thesis using zs by (simp add: suffix_def)
qed

lemma settle_logs:
  "delivered (settle t r) =
     (if fst (snd r) = Finished True then delivered (snd (snd r)) @ [t_batch t]
      else delivered (snd (snd r)))"
  "discarded (settle t r) =
     (if fst (snd r) = Finished False then discarded (snd (snd r)) @ [t_batch t]
      else discarded (snd (snd r)))"
  by (auto simp: settle_def Let_def split: phase.splits)

lemma step_ok_writes:
  assumes "step_ok t s r"
  obtains j where
    "writes (snd (snd r)) = writes s @ map (\<lambda>i. (int (made t) + int i, payload_of (t_batch t))) [0..<j]"
    "made (t\<lparr>t_attempt := fst r, t_phase := fst (snd r)\<rparr>) = made t + j"
proof -
  from assms obtain j where j:
    "snd (snd r) = s\<lparr>writes := writes s @ map (\<lambda>i. (int (made t) + int i, payload_of (t_batch t))) [0..<j]\<rparr>"
    "made (t\<lparr>t_attempt := fst r, t_phase := fst (snd r)\<rparr>) = made t + j"
    by (auto simp: step_ok_def)
  have "writes (snd (snd r)) = writes s @ map (\<lambda>i. (int (made t) + int i, payload_of (t_batch t))) [0..<j]"
    by (subst j(1)) simp
  then show ?thesis using j(2) that by blast
qed

lemma calls_inv_settle:
  assumes c: "calls_inv s" and t: "tasks s = [t]" and ok: "task_ok s t"
      and st: "step_ok t s r"
  shows "calls_inv (settle t r)"
proof -
  let ?p = "payload_of (t_batch t)"
  let ?t' = "t\<lparr>t_attempt := fst r, t_phase := fst (snd r)\<rparr>"
  from st obtain j where j:
      "writes (snd (snd r)) = writes s @ map (\<lambda>i. (int (made t) + int i, ?p)) [0..<j]"
      "made ?t' = made t + j"
    by (rule step_ok_writes)
  have tk: "tasks (snd (snd r)) = [t]" using step_ok_frame(10)[OF st] t by simp
  have sf: "suffix (map (\<lambda>i. (int i, ?p)) [0..<made t]) (writes s)"
    using c t by (simp add: calls_inv_def)
  have ch: "chain_ok (writes s)" using c by (simp add: calls_inv_def)
  have 1: "chain_ok (writes (snd (snd r)))"
    using chain_ok_append_retries[OF ch sf made_pos[OF ok], of j] j(1) by simp
  have 2: "suffix (map (\<lambda>i. (int i, ?p)) [0..<made ?t']) (writes (snd (snd r)))"
    using suffix_extend_block[OF sf, of j] j by simp
  show ?thesis using 1 2 tk by (simp add: calls_inv_def tasks_settle)
qed

lemma first_attempts_settle:
  assumes ok: "task_ok s t" and st: "step_ok t s r"
  shows "first_attempts (settle t r) = first_attempts s"
proof -
  from st obtain j where j:
      "writes (snd (snd r)) = writes s @ map (\<lambda>i. (int (made t) + int i, payload_of (t_batch t))) [0..<j]"
    by (rule step_ok_writes)
  show ?thesis
    using j first_attempts_block[OF made_pos[OF ok], of "payload_of (t_batch t)" j]
    by (simp add: first_attempts_def)
qed

lemma fifo_inv_frame:
  "fifo_inv s \<Longrightarrow> first_attempts s' = first_attempts s \<Longrightarrow> queue s' = queue s \<Longrightarrow>
   admitted s' = admitted s \<Longrightarrow> evicted s' = evicted s \<Longrightarrow> fifo_inv s'"
  by (simp add: fifo_inv_def handed_over_def)

lemma fifo_inv_settle:
  assumes "fifo_inv s" "task_ok s t" "step_ok t s r"
  shows "fifo_inv (settle t r)"
  using assms(1)
  by (rule fifo_inv_frame)
     (simp_all add: first_attempts_settle[OF assms(2,3)] step_ok_frame[OF assms(3)])

lemma unfinished_phase:
  "t_phase t \<noteq> Running \<Longrightarrow> unfinished t \<longleftrightarrow> t_phase t = Awaiting \<or> t_phase t = Sleeping"
  by (cases "t_phase t") (simp_all add: unfinished_def)

lemma batch_inv_settle:
  assumes b: "batch_inv s" and t: "tasks s = [t]" and ok: "task_ok s t"
      and u: "unfinished t" and st: "step_ok t s r"
  shows "batch_inv (settle t r)"
proof -
  from b obtain F where F: "map entries_of (first_attempts s) = F @ in_flight s"
      "subseq (delivered s) F" "mset F = mset (delivered s) + mset (discarded s)"
    by (auto simp: batch_inv_def)
  have inf: "in_flight s = [t_batch t]" using t u by (simp add: in_flight_def)
  have fa: "first_attempts (settle t r) = first_attempts s"
    by (rule first_attempts_settle[OF ok st])
  have tk: "tasks (snd (snd r)) = [t]" using step_ok_frame(10)[OF st] t by simp
  note fr = step_ok_frame(11,12)[OF st]
  have nr: "fst (snd r) \<noteq> Running" using st by (auto simp: step_ok_def)
  show ?thesis
  proof (cases "fst (snd r)")
    case Running
    then show ?thesis using nr by simp
  next
    case Awaiting
    then have "in_flight (settle t r) = [t_batch t]"
      using tk by (simp add: in_flight_def tasks_settle unfinished_def)
    then show ?thesis using F inf fa Awaiting fr
      unfolding batch_inv_def by (intro exI[of _ F]) (simp add: settle_logs)
  next
    case Sleeping
    then have "in_flight (settle t r) = [t_batch t]"
      using tk by (simp add: in_flight_def tasks_settle unfinished_def)
    then show ?thesis using F inf fa Sleeping fr
      unfolding batch_inv_def by (intro exI[of _ F]) (simp add: settle_logs)
  next
    case (Finished ok')
    then have "in_flight (settle t r) = []"
      using tk by (simp add: in_flight_def tasks_settle unfinished_def)
    then have i': "in_flight (settle t r) = []" .
    show ?thesis
    proof (cases ok')
      case True
      then show ?thesis using F inf fa Finished i' fr
        unfolding batch_inv_def
        by (intro exI[of _ "F @ [t_batch t]"]) (simp add: settle_logs)
    next
      case False
      then show ?thesis using F inf fa Finished i' fr
        unfolding batch_inv_def
        by (intro exI[of _ "F @ [t_batch t]"]) (simp add: settle_logs subseq_rev_drop_many)
    qed
  qed
qed

lemma first_attempts_frame:
  "writes s' = writes s \<Longrightarrow> first_attempts s' = first_attempts s"
  by (simp add: first_attempts_def)

lemma calls_inv_frame:
  "calls_inv s \<Longrightarrow> writes s' = writes s \<Longrightarrow> set (tasks s') \<subseteq> set (tasks s) \<Longrightarrow> calls_inv s'"
  by (auto simp: calls_inv_def)

lemma batch_inv_frame:
  "batch_inv s \<Longrightarrow> writes s' = writes s \<Longrightarrow> in_flight s' = in_flight s \<Longrightarrow>
   delivered s' = delivered s \<Longrightarrow> discarded s' = discarded s \<Longrightarrow> batch_inv s'"
  by (simp add: batch_inv_def first_attempts_def)

text \<open>A new activation: the first call carries attempt 0, the following ones are retries.\<close>

lemma doWrite_logs:
  assumes q: "calm cb cfg" and t: "tasks s = []" and b: "b \<noteq> []"
  shows "first_attempts (doWrite cb cfg b s) = first_attempts s @ [payload_of b]"
    and "calls_inv s \<Longrightarrow> calls_inv (doWrite cb cfg b s)"
    and "delivered (doWrite cb cfg b s) =
           (if fst (snd (attempt_loop cb cfg (payload_of b) 0 s)) = Finished True
            then delivered s @ [b] else delivered s)"
    and "discarded (doWrite cb cfg b s) =
           (if fst (snd (attempt_loop cb cfg (payload_of b) 0 s)) = Finished False
            then discarded s @ [b] else discarded s)"
proof -
  let ?r = "attempt_loop cb cfg (payload_of b) 0 s"
  obtain k where k0: "snd (snd ?r) = s\<lparr>writes := writes s @ map (\<lambda>i. (0 + int i, payload_of b)) [0..<Suc k]\<rparr>"
      "fst ?r = 0 + int k + (if fst (snd ?r) = Sleeping then 1 else 0)"
    using attempt_loop_shape[OF q, of "payload_of b" 0 s] by blast
  have k1: "writes (snd (snd ?r)) = writes s @ map (\<lambda>i. (int i, payload_of b)) [0..<Suc k]"
    by (subst k0(1)) simp
  have k2: "fst ?r = int k + (if fst (snd ?r) = Sleeping then 1 else 0)"
    using k0(2) by simp
  note k = k1 k2
  have w: "writes (doWrite cb cfg b s) = writes (snd (snd ?r))"
    by (rule writes_doWrite[OF q t b])
  have f: "filter (\<lambda>w. fst w = 0) (map (\<lambda>i. (int i, payload_of b)) [0..<Suc k]) = [(0, payload_of b)]"
    using first_attempts_block[of 1 "payload_of b" k]
    by (simp add: upt_rec[of 0] map_Suc_upt[symmetric] del: upt_Suc)
  show "first_attempts (doWrite cb cfg b s) = first_attempts s @ [payload_of b]"
    using w k(1) f by (simp add: first_attempts_def del: upt_Suc)
  show "delivered (doWrite cb cfg b s) =
           (if fst (snd ?r) = Finished True then delivered s @ [b] else delivered s)"
    by (simp add: doWrite_calm[OF q t b] Let_def)
  show "discarded (doWrite cb cfg b s) =
           (if fst (snd ?r) = Finished False then discarded s @ [b] else discarded s)"
    by (simp add: doWrite_calm[OF q t b] Let_def)
  assume c: "calls_inv s"
  have m: "made \<lparr>t_id = next_id s, t_batch = b, t_attempt = fst ?r, t_phase = fst (snd ?r),
                 t_upto = length (admitted s)\<rparr> = Suc k"
    using k(2) by (auto simp: made_def)
  have "chain_ok (writes (snd (snd ?r)))"
    using chain_ok_append_first[of "writes s" "payload_of b" k] c k(1) by (simp add: calls_inv_def)
  moreover have "suffix (map (\<lambda>i. (int i, payload_of b)) [0..<Suc k]) (writes (snd (snd ?r)))"
    using k(1) by (simp add: suffix_def)
  ultimately show "calls_inv (doWrite cb cfg b s)"
    using w m by (simp add: calls_inv_def tasks_doWrite[OF q t b])
qed

lemma in_flight_doWrite:
  "calm cb cfg \<Longrightarrow> tasks s = [] \<Longrightarrow> b \<noteq> [] \<Longrightarrow>
   in_flight (doWrite cb cfg b s) =
     (case fst (snd (attempt_loop cb cfg (payload_of b) 0 s)) of
        Finished ok \<Rightarrow> [] | _ \<Rightarrow> [b])"
  by (simp add: in_flight_def tasks_doWrite unfinished_def split: phase.splits)

subsection \<open>The log invariant holds in every reachable state\<close>

lemma log_inv_frame:
  "log_inv s \<Longrightarrow> flushPromise s' = flushPromise s \<Longrightarrow> tasks s' = tasks s \<Longrightarrow>
   next_id s' = next_id s \<Longrightarrow> writes s' = writes s \<Longrightarrow> queue s' = queue s \<Longrightarrow>
   admitted s' = admitted s \<Longrightarrow> evicted s' = evicted s \<Longrightarrow> delivered s' = delivered s \<Longrightarrow>
   discarded s' = discarded s \<Longrightarrow> log_inv s'"
  unfolding log_inv_def
  by (auto intro: guard_inv_frame calls_inv_frame
        elim!: fifo_inv_frame batch_inv_frame simp: first_attempts_def in_flight_def)

lemma resolve_caller_frame [simp]:
  "flushPromise (resolve_caller who s) = flushPromise s"
  "tasks (resolve_caller who s) = tasks s"
  "next_id (resolve_caller who s) = next_id s"
  "queue (resolve_caller who s) = queue s"
  "admitted (resolve_caller who s) = admitted s"
  "evicted (resolve_caller who s) = evicted s"
  "waiters (resolve_caller who s) = waiters s"
  "flush_marks (resolve_caller who s) = flush_marks s"
  "writes (resolve_caller who s) = writes s"
  "delivered (resolve_caller who s) = delivered s"
  "discarded (resolve_caller who s) = discarded s"
  "timer (resolve_caller who s) = timer s"
  by (simp_all add: resolve_caller_def split: option.splits)

lemma flushNow_frame [simp]:
  assumes q: "calm cb cfg"
  shows "admitted (flushNow cb cfg who s) = admitted s"
    "evicted (flushNow cb cfg who s) = evicted s"
    "flush_marks (flushNow cb cfg who s) = flush_marks s"
  by (simp_all add: flushNow_def resolve_caller_def doWrite_frame[OF q] Let_def
        split: option.splits)

lemma log_inv_settle:
  assumes l: "log_inv s" and t: "tasks s = [t]" and u: "unfinished t"
      and st: "step_ok t s r" and r: "res_ok (t_attempt t) s r"
  shows "log_inv (settle t r)"
proof -
  have ok: "task_ok s t" using l t by (auto simp: log_inv_def guard_inv_def)
  show ?thesis
    using l unfolding log_inv_def
    by (auto intro: guard_inv_settle[OF _ t r] calls_inv_settle[OF _ t ok st]
          fifo_inv_settle[OF _ ok st] batch_inv_settle[OF _ t ok u st])
qed

lemma log_inv_writeSettled:
  assumes q: "calm cb cfg" and l: "log_inv s" shows "log_inv (writeSettled cb cfg p ok s)"
proof -
  have g: "guard_inv s" using l by (simp add: log_inv_def)
  from g show ?thesis
  proof (cases rule: guard_inv_cases)
    case idle
    then show ?thesis using l by (simp add: writeSettled_def find_task_nil)
  next
    case (busy t)
    show ?thesis
    proof (cases "t_id t = p \<and> t_phase t = Awaiting")
      case False
      then show ?thesis using l busy by (auto simp: writeSettled_def find_task_single)
    next
      case True
      then have u: "unfinished t" by (simp add: unfinished_def)
      show ?thesis
      proof (cases ok)
        case True
        have "log_inv (settle t (t_attempt t, Finished True, s))"
          using \<open>t_id t = p \<and> t_phase t = Awaiting\<close>
          by (intro log_inv_settle[OF l busy(1) u] step_ok_success res_ok_success) simp
        then show ?thesis using True \<open>t_id t = p \<and> t_phase t = Awaiting\<close> busy
          by (simp add: writeSettled_def find_task_single)
      next
        case False
        have "log_inv (settle t (on_failure cb cfg (payload_of (t_batch t)) (t_attempt t) s))"
          using \<open>t_id t = p \<and> t_phase t = Awaiting\<close> busy(3)
          by (intro log_inv_settle[OF l busy(1) u] step_ok_on_failure[OF q] res_ok_on_failure[OF q])
             simp_all
        then show ?thesis using False \<open>t_id t = p \<and> t_phase t = Awaiting\<close> busy
          by (simp add: writeSettled_def find_task_single)
      qed
    qed
  qed
qed

lemma log_inv_sleepDone:
  assumes q: "calm cb cfg" and l: "log_inv s" shows "log_inv (sleepDone cb cfg p s)"
proof -
  have g: "guard_inv s" using l by (simp add: log_inv_def)
  from g show ?thesis
  proof (cases rule: guard_inv_cases)
    case idle
    then show ?thesis using l by (simp add: sleepDone_def find_task_nil)
  next
    case (busy t)
    show ?thesis
    proof (cases "t_id t = p \<and> t_phase t = Sleeping")
      case False
      then show ?thesis using l busy by (auto simp: sleepDone_def find_task_single)
    next
      case True
      then have u: "unfinished t" by (simp add: unfinished_def)
      have "log_inv (settle t (attempt_loop cb cfg (payload_of (t_batch t)) (t_attempt t) s))"
        using True busy(3)
        by (intro log_inv_settle[OF l busy(1) u] step_ok_sleepDone[OF q] res_ok_attempt_loop[OF q])
           simp_all
      then show ?thesis using True busy by (simp add: sleepDone_def find_task_single)
    qed
  qed
qed

lemma log_inv_finallyCb:
  assumes l: "log_inv s" shows "log_inv (finallyCb p s)"
proof -
  have g: "guard_inv s" using l by (simp add: log_inv_def)
  from g show ?thesis
  proof (cases rule: guard_inv_cases)
    case idle
    then show ?thesis using l by (simp add: finallyCb_def find_task_nil)
  next
    case (busy t)
    show ?thesis
    proof (cases "t_id t = p \<and> \<not> unfinished t")
      case False
      then show ?thesis using l busy
        by (auto simp: finallyCb_def find_task_single unfinished_def split: phase.splits)
    next
      case True
      then have e: "finallyCb p s = s\<lparr>flushPromise := None, tasks := []\<rparr>"
        using busy by (auto simp: finallyCb_def find_task_single unfinished_def split: phase.splits)
      have i: "in_flight s = []" using True busy by (simp add: in_flight_def)
      show ?thesis unfolding e
        using l i unfolding log_inv_def
        by (auto simp: guard_inv_def calls_inv_def fifo_inv_def batch_inv_def handed_over_def
              first_attempts_def in_flight_def)
    qed
  qed
qed

lemma log_inv_flushNow:
  assumes q: "calm cb cfg" and l: "log_inv s" shows "log_inv (flushNow cb cfg who s)"
proof -
  have g: "guard_inv s" using l by (simp add: log_inv_def)
  from g show ?thesis
  proof (cases rule: guard_inv_cases)
    case (busy t)
    then have "flushNow cb cfg who s =
        s\<lparr>waiters := waiters s @ [\<lparr>w_on = t_id t, w_kind = Rerun, w_caller = who\<rparr>]\<rparr>"
      by (simp add: flushNow_def)
    then show ?thesis using l by (auto intro: log_inv_frame)
  next
    case idle
    show ?thesis
    proof (cases "queue s = []")
      case True
      then have "flushNow cb cfg who s = resolve_caller who s"
        using idle by (simp add: flushNow_def)
      then show ?thesis using l by (auto intro: log_inv_frame)
    next
      case False
      let ?s2 = "s\<lparr>timer := False, queue := []\<rparr>"
      let ?b = "queue s"
      let ?d = "doWrite cb cfg ?b ?s2"
      let ?ph = "fst (snd (attempt_loop cb cfg (payload_of ?b) 0 ?s2))"
      have t2: "tasks ?s2 = []" using idle by simp
      have g': "guard_inv (flushNow cb cfg who s)" by (rule guard_inv_flushNow[OF q g])
      have fw: "writes (flushNow cb cfg who s) = writes ?d"
               "tasks (flushNow cb cfg who s) = tasks ?d"
               "queue (flushNow cb cfg who s) = []"
               "admitted (flushNow cb cfg who s) = admitted s"
               "evicted (flushNow cb cfg who s) = evicted s"
               "delivered (flushNow cb cfg who s) = delivered ?d"
               "discarded (flushNow cb cfg who s) = discarded ?d"
        using idle False by (simp_all add: flushNow_calm[OF q] Let_def doWrite_frame[OF q] split: option.splits)
      have fa: "first_attempts (flushNow cb cfg who s) = first_attempts s @ [payload_of ?b]"
        using doWrite_logs(1)[OF q t2 False] fw(1) by (simp add: first_attempts_def)
      have c0: "calls_inv ?s2" using l by (auto simp: log_inv_def calls_inv_def)
      have c: "calls_inv (flushNow cb cfg who s)"
        using doWrite_logs(2)[OF q t2 False c0] fw by (simp add: calls_inv_def)
      have f: "fifo_inv (flushNow cb cfg who s)"
        using l fa fw by (simp add: log_inv_def fifo_inv_def handed_over_def)
      from l obtain F where F: "map entries_of (first_attempts s) = F @ in_flight s"
          "subseq (delivered s) F" "mset F = mset (delivered s) + mset (discarded s)"
        by (auto simp: log_inv_def batch_inv_def)
      have i0: "in_flight s = []" using idle by (simp add: in_flight_def)
      have i1: "in_flight (flushNow cb cfg who s) = (case ?ph of Finished ok \<Rightarrow> [] | _ \<Rightarrow> [?b])"
        using in_flight_doWrite[OF q t2 False] fw(2) by (simp add: in_flight_def)
      have dl: "delivered (flushNow cb cfg who s) =
                  (if ?ph = Finished True then delivered s @ [?b] else delivered s)"
        using doWrite_logs(3)[OF q t2 False] fw by simp
      have dc: "discarded (flushNow cb cfg who s) =
                  (if ?ph = Finished False then discarded s @ [?b] else discarded s)"
        using doWrite_logs(4)[OF q t2 False] fw by simp
      have b: "batch_inv (flushNow cb cfg who s)"
      proof (cases ?ph)
        case Running
        then show ?thesis unfolding batch_inv_def using F i0 i1 dl dc fa
          by (intro exI[of _ F]) simp
      next
        case Awaiting
        then show ?thesis unfolding batch_inv_def using F i0 i1 dl dc fa
          by (intro exI[of _ F]) simp
      next
        case Sleeping
        then show ?thesis unfolding batch_inv_def using F i0 i1 dl dc fa
          by (intro exI[of _ F]) simp
      next
        case (Finished ok')
        show ?thesis
        proof (cases ok')
          case True
          then show ?thesis unfolding batch_inv_def using F i0 i1 dl dc fa Finished
            by (intro exI[of _ "F @ [?b]"]) simp
        next
          case False
          then show ?thesis unfolding batch_inv_def using F i0 i1 dl dc fa Finished
            by (intro exI[of _ "F @ [?b]"]) (simp add: subseq_rev_drop_many)
        qed
      qed
      show ?thesis using g' c f b by (simp add: log_inv_def)
    qed
  qed
qed

lemma queue_push_evict:
  "queue (push_evict cfg e s) =
     (if maxQueueSize cfg > 0 \<and> int (length (queue s)) + 1 > maxQueueSize cfg
      then tl (queue s @ [e]) else queue s @ [e])"
  "evicted (push_evict cfg e s) =
     (if maxQueueSize cfg > 0 \<and> int (length (queue s)) + 1 > maxQueueSize cfg
      then evicted s @ [hd (queue s @ [e])] else evicted s)"
  by (auto simp: push_evict_def Let_def split: list.splits)

lemma log_inv_push_evict:
  assumes l: "log_inv s" shows "log_inv (push_evict cfg e s)"
proof -
  have f: "fifo_inv s" using l by (simp add: log_inv_def)
  have ho: "handed_over (push_evict cfg e s) = handed_over s"
    by (simp add: handed_over_def first_attempts_def)
  have s1: "subseq (handed_over s @ queue s @ [e]) (admitted s @ [e])"
    using f by (simp add: fifo_inv_def flip: append_assoc)
  have s2: "subseq (handed_over s @ tl (queue s @ [e])) (handed_over s @ queue s @ [e])"
    using suffix_imp_subseq[OF suffix_tl, of "queue s @ [e]"] by (simp add: subseq_append')
  have m2: "mset (queue s @ [e]) = mset (tl (queue s @ [e])) + {#hd (queue s @ [e])#}"
    by (cases "queue s @ [e]") simp_all
  have "fifo_inv (push_evict cfg e s)"
  proof (cases "maxQueueSize cfg > 0 \<and> int (length (queue s)) + 1 > maxQueueSize cfg")
    case True
    have "subseq (handed_over s @ tl (queue s @ [e])) (admitted s @ [e])"
      using s1 s2 subseq_order.order_trans by blast
    moreover have "mset (admitted s @ [e]) =
        mset (handed_over s) + mset (tl (queue s @ [e])) + mset (evicted s @ [hd (queue s @ [e])])"
      using f m2 by (simp add: fifo_inv_def)
    ultimately show ?thesis using True
      by (simp add: fifo_inv_def ho queue_push_evict)
  next
    case False
    then show ?thesis using s1 f by (auto simp: fifo_inv_def ho queue_push_evict)
  qed
  then show ?thesis
    using l unfolding log_inv_def
    by (auto intro: guard_inv_frame calls_inv_frame elim: batch_inv_frame simp: in_flight_def)
qed

lemma log_inv_trigger: "calm cb cfg \<Longrightarrow> log_inv s \<Longrightarrow> log_inv (trigger cb cfg s)"
  by (auto simp: trigger_def log_inv_flushNow intro: log_inv_frame)

lemma log_inv_enqueue:
  "calm cb cfg \<Longrightarrow> log_inv s \<Longrightarrow> enqueue cb cfg e now s = Inr s' \<Longrightarrow> log_inv s'"
  by (erule enqueue_cases)
     (auto intro!: log_inv_trigger log_inv_push_evict intro: log_inv_frame)

lemma log_inv_flush: "calm cb cfg \<Longrightarrow> log_inv s \<Longrightarrow> log_inv (flush cb cfg s)"
  by (auto simp: flush_def Let_def intro!: log_inv_flushNow intro: log_inv_frame)

lemma log_inv_timerFire: "calm cb cfg \<Longrightarrow> log_inv s \<Longrightarrow> log_inv (timerFire cb cfg s)"
  by (auto simp: timerFire_def intro!: log_inv_flushNow intro: log_inv_frame)

lemma log_inv_run_waiter: "calm cb cfg \<Longrightarrow> log_inv s \<Longrightarrow> log_inv (run_waiter cb cfg w s)"
  by (auto simp: run_waiter_def log_inv_flushNow split: waiter_kind.splits intro: log_inv_frame)

lemma log_inv_fold:
  "calm cb cfg \<Longrightarrow> log_inv s \<Longrightarrow> log_inv (foldl (\<lambda>s' w. run_waiter cb cfg w s') s ws)"
  by (induction ws arbitrary: s) (auto simp: log_inv_run_waiter)

lemma log_inv_resolve: "calm cb cfg \<Longrightarrow> log_inv s \<Longrightarrow> log_inv (resolve cb cfg p s)"
  by (auto simp: resolve_def intro!: log_inv_fold intro: log_inv_frame)

lemma log_inv_step: "quiet cfg \<Longrightarrow> log_inv s \<Longrightarrow> log_inv (step d cfg s ev)"
  using calm_callbacks[of cfg d]
  by (cases ev)
     (auto simp: log_inv_flush log_inv_timerFire log_inv_writeSettled log_inv_sleepDone
        log_inv_finallyCb log_inv_resolve split: sum.splits
        intro: log_inv_enqueue log_inv_frame)

lemma log_inv_run: "quiet cfg \<Longrightarrow> log_inv (run d cfg evs)"
proof (induction evs rule: rev_induct)
  case Nil
  show ?case
    by (simp add: run_def log_inv_def guard_inv_def calls_inv_def fifo_inv_def batch_inv_def
          chain_ok_def handed_over_def first_attempts_def in_flight_def new_slot_def)
next
  case (snoc ev evs)
  then show ?case by (simp add: run_snoc log_inv_step)
qed

subsection \<open>What holds for every transport\<close>

text \<open>
  The three ways one turn of the retry loop ends, whatever the logger calls made from
  inside the write do: the loop is left or suspended with \<open>attempt\<close> as it is, it is
  suspended for a retry delay with \<open>attempt\<close> incremented, or it goes round again.
\<close>

lemma attempt_loop_cases:
  fixes cb cfg p a s
  defines "r \<equiv> cb (fst (transport cfg (map snd (writes s) @ [p]))) (s\<lparr>writes := writes s @ [(a, p)]\<rparr>)"
  obtains (stop) ph where "attempt_loop cb cfg p a s = (a, ph, snd r)" "ph \<noteq> Sleeping" "ph \<noteq> Running"
        | (sleep) "attempt_loop cb cfg p a s = (a + 1, Sleeping, snd r)" "a < maxRetries cfg"
        | (again) "attempt_loop cb cfg p a s = attempt_loop cb cfg p (a + 1) (snd r)"
                  "a < maxRetries cfg"
proof -
  let ?w = "transport cfg (map snd (writes s) @ [p])"
  let ?x = "if fst r then Throws else snd ?w"
  have e: "attempt_loop cb cfg p a s =
      (case ?x of
         Returns \<Rightarrow> (a, Finished True, snd r)
       | Pending \<Rightarrow> (a, Awaiting, snd r)
       | Throws \<Rightarrow>
           if a \<ge> maxRetries cfg then (a, Finished False, snd r)
           else if retryDelay cfg > 0 then (a + 1, Sleeping, snd r)
           else attempt_loop cb cfg p (a + 1) (snd r))"
    unfolding r_def by (subst attempt_loop.simps) (simp add: Let_def split: write_result.splits)
  show ?thesis
  proof (cases ?x)
    case Returns
    then have "attempt_loop cb cfg p a s = (a, Finished True, snd r)" using e by simp
    then show ?thesis using stop by simp
  next
    case Pending
    then have "attempt_loop cb cfg p a s = (a, Awaiting, snd r)" using e by simp
    then show ?thesis using stop by simp
  next
    case Throws
    show ?thesis
    proof (cases "a \<ge> maxRetries cfg")
      case True
      then have "attempt_loop cb cfg p a s = (a, Finished False, snd r)" using e Throws by simp
      then show ?thesis using stop by simp
    next
      case False
      show ?thesis
      proof (cases "retryDelay cfg > 0")
        case True
        then have "attempt_loop cb cfg p a s = (a + 1, Sleeping, snd r)"
          using e Throws False by simp
        then show ?thesis using sleep False by simp
      next
        case nd: False
        then have "attempt_loop cb cfg p a s = attempt_loop cb cfg p (a + 1) (snd r)"
          using e Throws False by simp
        then show ?thesis using again False by simp
      qed
    qed
  qed
qed

lemma queue_inv_frame:
  "queue_inv cfg s \<Longrightarrow> queue s' = queue s \<Longrightarrow> admitted s' = admitted s \<Longrightarrow>
   set (tasks s') \<subseteq> set (tasks s) \<Longrightarrow> queue_inv cfg s'"
  by (auto simp: queue_inv_def)

lemma retry_inv_frame:
  "retry_inv cfg s \<Longrightarrow> writes s' = writes s \<Longrightarrow> set (tasks s') \<subseteq> set (tasks s) \<Longrightarrow>
   retry_inv cfg s'"
  by (auto simp: retry_inv_def list_all_iff)

lemma basic_inv_frame:
  "basic_inv cfg s \<Longrightarrow> queue s' = queue s \<Longrightarrow> admitted s' = admitted s \<Longrightarrow>
   writes s' = writes s \<Longrightarrow> set (tasks s') \<subseteq> set (tasks s) \<Longrightarrow> basic_inv cfg s'"
  unfolding basic_inv_def by (auto intro: queue_inv_frame retry_inv_frame)

lemma basic_inv_call:
  "basic_inv cfg s \<Longrightarrow> attempt_ok cfg a \<Longrightarrow> basic_inv cfg (s\<lparr>writes := writes s @ [(a, p)]\<rparr>)"
  by (simp add: basic_inv_def queue_inv_def retry_inv_def)

lemma basic_inv_set_task:
  "basic_inv cfg s \<Longrightarrow> attempt_ok cfg a \<Longrightarrow> basic_inv cfg (set_task p a ph s)"
  by (auto simp: basic_inv_def queue_inv_def retry_inv_def set_task_def list_all_iff)

lemma basic_inv_settle:
  "basic_inv cfg (snd (snd r)) \<Longrightarrow> attempt_ok cfg (fst r) \<Longrightarrow> basic_inv cfg (settle t r)"
  unfolding settle_def Let_def
  by (auto split: phase.splits intro: basic_inv_frame[OF basic_inv_set_task])

lemma attempt_loop_keeps:
  assumes k: "keeps cfg cb"
  shows "basic_inv cfg s \<Longrightarrow> attempt_ok cfg a \<Longrightarrow>
         basic_inv cfg (snd (snd (attempt_loop cb cfg p a s))) \<and>
         attempt_ok cfg (fst (attempt_loop cb cfg p a s))"
proof (induction "nat (maxRetries cfg - a)" arbitrary: a s rule: less_induct)
  case less
  let ?r = "cb (fst (transport cfg (map snd (writes s) @ [p]))) (s\<lparr>writes := writes s @ [(a, p)]\<rparr>)"
  have b: "basic_inv cfg (snd ?r)"
    using k basic_inv_call[OF less.prems(1,2), of p] by (simp add: keeps_def)
  show ?case
  proof (cases rule: attempt_loop_cases[of cb cfg p a s])
    case (stop ph)
    then show ?thesis using b less.prems(2) by simp
  next
    case sleep
    then show ?thesis using b less.prems(2) by (simp add: attempt_ok_def)
  next
    case again
    have lt: "nat (maxRetries cfg - (a + 1)) < nat (maxRetries cfg - a)"
      using again(2) by linarith
    have a1: "attempt_ok cfg (a + 1)" using again(2) less.prems(2) by (simp add: attempt_ok_def)
    show ?thesis using less.hyps[OF lt b a1] again(1) by simp
  qed
qed

lemma on_failure_keeps:
  assumes k: "keeps cfg cb"
  shows "basic_inv cfg s \<Longrightarrow> attempt_ok cfg a \<Longrightarrow>
         basic_inv cfg (snd (snd (on_failure cb cfg p a s))) \<and>
         attempt_ok cfg (fst (on_failure cb cfg p a s))"
  using attempt_loop_keeps[OF k, of s "a + 1" p]
  by (auto simp: on_failure_def attempt_ok_def)

lemma doWrite_keeps:
  assumes k: "keeps cfg cb" and b: "basic_inv cfg s" and sf: "suffix batch (admitted s)"
  shows "basic_inv cfg (doWrite cb cfg batch s)"
proof -
  let ?t = "\<lparr>t_id = next_id s, t_batch = batch, t_attempt = 0, t_phase = Running,
             t_upto = length (admitted s)\<rparr>"
  let ?s1 = "s\<lparr>tasks := tasks s @ [?t], next_id := Suc (next_id s)\<rparr>"
  have b1: "basic_inv cfg ?s1"
    using b sf by (auto simp: basic_inv_def queue_inv_def retry_inv_def attempt_ok_def)
  have a0: "attempt_ok cfg 0" by (simp add: attempt_ok_def)
  show ?thesis
  proof (cases "batch = []")
    case True
    have "basic_inv cfg (set_task (next_id s) 0 (Finished True) ?s1)"
      by (rule basic_inv_set_task[OF b1 a0])
    then show ?thesis unfolding doWrite_def Let_def using True by simp
  next
    case False
    then show ?thesis
      using attempt_loop_keeps[OF k b1 a0, of "payload_of batch"]
      by (simp add: doWrite_def Let_def basic_inv_settle)
  qed
qed

lemma basic_inv_resolve_caller: "basic_inv cfg s \<Longrightarrow> basic_inv cfg (resolve_caller who s)"
  by (auto simp: resolve_caller_def split: option.splits intro: basic_inv_frame)

lemma flushNow_keeps:
  assumes k: "keeps cfg cb" and b: "basic_inv cfg s"
  shows "basic_inv cfg (flushNow cb cfg who s)"
proof (cases "flushPromise s")
  case (Some p)
  then show ?thesis using b by (auto simp: flushNow_def intro: basic_inv_frame)
next
  case None
  show ?thesis
  proof (cases "queue s = []")
    case True
    then show ?thesis using None b by (simp add: flushNow_def basic_inv_resolve_caller)
  next
    case False
    let ?s2 = "s\<lparr>timer := False, queue := []\<rparr>"
    have b2: "basic_inv cfg ?s2"
      using b by (auto simp: basic_inv_def queue_inv_def retry_inv_def)
    have sf: "suffix (queue s) (admitted ?s2)" using b by (simp add: basic_inv_def queue_inv_def)
    have "basic_inv cfg (doWrite cb cfg (queue s) ?s2)" by (rule doWrite_keeps[OF k b2 sf])
    then show ?thesis using None False
      by (auto simp: flushNow_def Let_def split: option.splits intro: basic_inv_frame)
  qed
qed

lemma queue_inv_push_evict:
  assumes q: "queue_inv cfg s" shows "queue_inv cfg (push_evict cfg e s)"
proof -
  have s0: "suffix (queue s) (admitted s)" using q by (simp add: queue_inv_def)
  have s1: "suffix (queue s @ [e]) (admitted s @ [e])" using s0 by simp
  have s2: "suffix (tl (queue s @ [e])) (admitted s @ [e])"
    using s1 suffix_tl suffix_order.order_trans by blast
  have t: "\<forall>t\<in>set (tasks s). t_upto t \<le> length (admitted s @ [e]) \<and>
             suffix (t_batch t) (take (t_upto t) (admitted s @ [e]))"
    using q by (auto simp: queue_inv_def)
  have l: "maxQueueSize cfg > 0 \<longrightarrow> int (length (queue (push_evict cfg e s))) \<le> maxQueueSize cfg"
    using q by (auto simp: queue_inv_def queue_push_evict)
  show ?thesis using s1 s2 t l by (auto simp: queue_inv_def queue_push_evict)
qed

lemma basic_inv_push_evict: "basic_inv cfg s \<Longrightarrow> basic_inv cfg (push_evict cfg e s)"
  unfolding basic_inv_def by (auto intro: queue_inv_push_evict retry_inv_frame)

lemma trigger_keeps: "keeps cfg cb \<Longrightarrow> basic_inv cfg s \<Longrightarrow> basic_inv cfg (trigger cb cfg s)"
  by (auto simp: trigger_def flushNow_keeps intro: basic_inv_frame)

lemma enqueue_keeps:
  "keeps cfg cb \<Longrightarrow> basic_inv cfg s \<Longrightarrow> enqueue cb cfg e now s = Inr s' \<Longrightarrow> basic_inv cfg s'"
  by (erule enqueue_cases)
     (auto intro!: trigger_keeps basic_inv_push_evict intro: basic_inv_frame)

lemma flush_keeps: "keeps cfg cb \<Longrightarrow> basic_inv cfg s \<Longrightarrow> basic_inv cfg (flush cb cfg s)"
  by (auto simp: flush_def Let_def intro!: flushNow_keeps intro: basic_inv_frame)

lemma callbacks_keeps_step:
  assumes k: "keeps cfg (callbacks d cfg)"
  shows "basic_inv cfg s \<Longrightarrow> basic_inv cfg (snd (callbacks (Suc d) cfg cs s))"
proof (induction cs arbitrary: s)
  case Nil
  then show ?case by simp
next
  case (Cons c cs)
  show ?case
  proof (cases c)
    case (CallEnqueue e now)
    show ?thesis
    proof (cases "enqueue (callbacks d cfg) cfg e now s")
      case (Inl err)
      then show ?thesis using CallEnqueue Cons.prems by simp
    next
      case (Inr s')
      have "basic_inv cfg s'" by (rule enqueue_keeps[OF k Cons.prems Inr])
      then show ?thesis using CallEnqueue Inr Cons.IH by simp
    qed
  next
    case CallFlush
    have "basic_inv cfg (flush (callbacks d cfg) cfg s)" by (rule flush_keeps[OF k Cons.prems])
    then show ?thesis using CallFlush Cons.IH by simp
  qed
qed

lemma callbacks_keeps: "keeps cfg (callbacks d cfg)"
proof (induction d)
  case 0
  have "\<And>cs s. snd (callbacks 0 cfg cs s) = s"
  proof -
    fix cs s show "snd (callbacks 0 cfg cs s) = s" by (cases cs) simp_all
  qed
  then show ?case by (simp add: keeps_def)
next
  case (Suc d)
  then show ?case using callbacks_keeps_step[of cfg d] by (simp add: keeps_def)
qed

lemma find_task_mem: "find_task p s = Some t \<Longrightarrow> t \<in> set (tasks s)"
  unfolding find_task_def by (auto simp: find_Some_iff)

lemma basic_inv_task: "basic_inv cfg s \<Longrightarrow> t \<in> set (tasks s) \<Longrightarrow> attempt_ok cfg (t_attempt t)"
  by (auto simp: basic_inv_def retry_inv_def list_all_iff)

lemma writeSettled_keeps:
  assumes k: "keeps cfg cb" and b: "basic_inv cfg s"
  shows "basic_inv cfg (writeSettled cb cfg p ok s)"
proof (cases "find_task p s")
  case None
  then show ?thesis using b by (simp add: writeSettled_def)
next
  case (Some t)
  have a: "attempt_ok cfg (t_attempt t)" using basic_inv_task[OF b find_task_mem[OF Some]] .
  show ?thesis
    using Some b a on_failure_keeps[OF k b a, of "payload_of (t_batch t)"]
    by (auto simp: writeSettled_def intro!: basic_inv_settle)
qed

lemma sleepDone_keeps:
  assumes k: "keeps cfg cb" and b: "basic_inv cfg s"
  shows "basic_inv cfg (sleepDone cb cfg p s)"
proof (cases "find_task p s")
  case None
  then show ?thesis using b by (simp add: sleepDone_def)
next
  case (Some t)
  have a: "attempt_ok cfg (t_attempt t)" using basic_inv_task[OF b find_task_mem[OF Some]] .
  show ?thesis
    using Some b attempt_loop_keeps[OF k b a, of "payload_of (t_batch t)"]
    by (auto simp: sleepDone_def intro!: basic_inv_settle)
qed

lemma run_waiter_keeps:
  "keeps cfg cb \<Longrightarrow> basic_inv cfg s \<Longrightarrow> basic_inv cfg (run_waiter cb cfg w s)"
  by (auto simp: run_waiter_def flushNow_keeps basic_inv_resolve_caller split: waiter_kind.splits)

lemma fold_keeps:
  "keeps cfg cb \<Longrightarrow> basic_inv cfg s \<Longrightarrow>
   basic_inv cfg (foldl (\<lambda>s' w. run_waiter cb cfg w s') s ws)"
  by (induction ws arbitrary: s) (auto simp: run_waiter_keeps)

lemma resolve_keeps: "keeps cfg cb \<Longrightarrow> basic_inv cfg s \<Longrightarrow> basic_inv cfg (resolve cb cfg p s)"
  by (auto simp: resolve_def intro!: fold_keeps intro: basic_inv_frame)

lemma timerFire_keeps: "keeps cfg cb \<Longrightarrow> basic_inv cfg s \<Longrightarrow> basic_inv cfg (timerFire cb cfg s)"
  by (auto simp: timerFire_def intro!: flushNow_keeps intro: basic_inv_frame)

lemma basic_inv_finallyCb: "basic_inv cfg s \<Longrightarrow> basic_inv cfg (finallyCb p s)"
  by (auto simp: finallyCb_def split: option.splits phase.splits intro: basic_inv_frame)

lemma basic_inv_step: "basic_inv cfg s \<Longrightarrow> basic_inv cfg (step d cfg s ev)"
  using callbacks_keeps[of cfg d]
  by (cases ev)
     (auto simp: flush_keeps timerFire_keeps writeSettled_keeps sleepDone_keeps
        basic_inv_finallyCb resolve_keeps split: sum.splits
        intro: enqueue_keeps basic_inv_frame)

lemma basic_inv_run: "basic_inv cfg (run d cfg evs)"
proof (induction evs rule: rev_induct)
  case Nil
  show ?case by (simp add: run_def basic_inv_def queue_inv_def retry_inv_def new_slot_def)
next
  case (snoc ev evs)
  then show ?case by (simp add: run_snoc basic_inv_step)
qed

lemma queue_inv_run: "queue_inv cfg (run d cfg evs)"
  using basic_inv_run[of cfg d evs] by (simp add: basic_inv_def)

subsection \<open>The call log only grows\<close>

lemma attempt_loop_extends:
  assumes x: "extends cb"
  shows "prefix (writes s @ [(a, p)]) (writes (snd (snd (attempt_loop cb cfg p a s))))"
proof (induction "nat (maxRetries cfg - a)" arbitrary: a s rule: less_induct)
  case less
  let ?r = "cb (fst (transport cfg (map snd (writes s) @ [p]))) (s\<lparr>writes := writes s @ [(a, p)]\<rparr>)"
  have b: "prefix (writes s @ [(a, p)]) (writes (snd ?r))"
    using x[unfolded extends_def, rule_format, of "s\<lparr>writes := writes s @ [(a, p)]\<rparr>"] by simp
  show ?case
  proof (cases rule: attempt_loop_cases[of cb cfg p a s])
    case (stop ph)
    then show ?thesis using b by simp
  next
    case sleep
    then show ?thesis using b by simp
  next
    case again
    have lt: "nat (maxRetries cfg - (a + 1)) < nat (maxRetries cfg - a)"
      using again(2) by linarith
    have "prefix (writes (snd ?r) @ [(a + 1, p)])
            (writes (snd (snd (attempt_loop cb cfg p (a + 1) (snd ?r)))))"
      by (rule less.hyps[OF lt])
    then have "prefix (writes (snd ?r)) (writes (snd (snd (attempt_loop cb cfg p (a + 1) (snd ?r)))))"
      using append_prefixD by blast
    then show ?thesis using b again(1) prefix_order.order_trans by fastforce
  qed
qed

lemma set_task_writes: "writes (set_task p a ph s) = writes s"
  by (simp add: set_task_def)

lemma doWrite_extends:
  assumes x: "extends cb" and b: "batch \<noteq> []"
  shows "prefix (writes s @ [(0, payload_of batch)]) (writes (doWrite cb cfg batch s))"
  using attempt_loop_extends[OF x, of
      "s\<lparr>tasks := tasks s @ [\<lparr>t_id = next_id s, t_batch = batch, t_attempt = 0, t_phase = Running,
             t_upto = length (admitted s)\<rparr>], next_id := Suc (next_id s)\<rparr>" 0 "payload_of batch" cfg] b
  by (simp add: doWrite_def Let_def)

text \<open>
  With no write in flight and a queue that is not empty, the next write call of
  \<open>flushNow\<close> is a first attempt with the whole queue as its payload.
\<close>

lemma flushNow_first_write:
  assumes x: "extends cb" and f: "flushPromise s = None" and n: "queue s \<noteq> []"
  shows "prefix (writes s @ [(0, payload_of (queue s))]) (writes (flushNow cb cfg who s))"
  using doWrite_extends[OF x n, of "s\<lparr>timer := False, queue := []\<rparr>" cfg] f n
  by (simp add: flushNow_def Let_def split: option.splits)

lemma flushNow_extends:
  assumes x: "extends cb"
  shows "prefix (writes s) (writes (flushNow cb cfg who s))"
proof (cases "flushPromise s = None \<and> queue s \<noteq> []")
  case True
  then show ?thesis using flushNow_first_write[OF x, of s cfg who] append_prefixD by blast
next
  case False
  then show ?thesis
    by (auto simp: flushNow_def resolve_caller_def split: option.splits)
qed

lemma enqueue_extends:
  assumes x: "extends cb" and e: "enqueue cb cfg e now s = Inr s'"
  shows "prefix (writes s) (writes s')"
  using e
proof (cases rule: enqueue_cases)
  case dropped
  then show ?thesis by simp
next
  case limited
  then show ?thesis by simp
next
  case pushed
  then show ?thesis
    using flushNow_extends[OF x, of "push_evict cfg e (snd (isRateLimited cfg now s))" cfg None]
    by (simp add: trigger_def)
qed

lemma flush_extends: "extends cb \<Longrightarrow> prefix (writes s) (writes (flush cb cfg s))"
  using flushNow_extends[of cb "s\<lparr>flush_marks := flush_marks s @ [length (admitted s)]\<rparr>" cfg]
  by (simp add: flush_def Let_def)

lemma callbacks_extends_step:
  assumes x: "extends (callbacks d cfg)"
  shows "prefix (writes s) (writes (snd (callbacks (Suc d) cfg cs s)))"
proof (induction cs arbitrary: s)
  case Nil
  then show ?case by simp
next
  case (Cons c cs)
  show ?case
  proof (cases c)
    case (CallEnqueue e now)
    show ?thesis
    proof (cases "enqueue (callbacks d cfg) cfg e now s")
      case (Inl err)
      then show ?thesis using CallEnqueue by simp
    next
      case (Inr s')
      have "prefix (writes s) (writes s')" by (rule enqueue_extends[OF x Inr])
      then show ?thesis using CallEnqueue Inr Cons.IH[of s'] prefix_order.order_trans by fastforce
    qed
  next
    case CallFlush
    have "prefix (writes s) (writes (flush (callbacks d cfg) cfg s))" by (rule flush_extends[OF x])
    then show ?thesis
      using CallFlush Cons.IH[of "flush (callbacks d cfg) cfg s"] prefix_order.order_trans
      by fastforce
  qed
qed

lemma callbacks_extends: "extends (callbacks d cfg)"
proof (induction d)
  case 0
  have "\<And>cs s. snd (callbacks 0 cfg cs s) = s"
  proof -
    fix cs s show "snd (callbacks 0 cfg cs s) = s" by (cases cs) simp_all
  qed
  then show ?case by (simp add: extends_def)
next
  case (Suc d)
  then show ?case using callbacks_extends_step[of d cfg] by (simp add: extends_def)
qed

subsection \<open>A completed flush has drained what was admitted before it\<close>

lemma waiter_ok_mono:
  assumes "waiter_ok s w"
      and "next_id s \<le> next_id s'"
      and "length (flush_marks s) \<le> length (flush_marks s')"
      and "\<forall>f<length (flush_marks s). flush_marks s' ! f = flush_marks s ! f"
      and "length (admitted s) \<le> length (admitted s')"
      and "length (queue s') + length (admitted s) \<le> length (queue s) + length (admitted s')"
      and "\<forall>t'\<in>set (tasks s'). \<exists>t\<in>set (tasks s).
             t_id t = t_id t' \<and> t_batch t = t_batch t' \<and> t_upto t = t_upto t'"
  shows "waiter_ok s' w"
proof (cases "w_caller w")
  case None
  then show ?thesis using assms by (simp add: waiter_ok_def caller_ok_def)
next
  case (Some f)
  have c: "f < length (flush_marks s)" "flush_marks s ! f \<le> length (admitted s)"
    using assms(1) Some by (simp_all add: waiter_ok_def caller_ok_def)
  have e: "flush_marks s' ! f = flush_marks s ! f" using c assms(4) by simp
  have 1: "w_on w < next_id s'" using assms(1,2) by (simp add: waiter_ok_def)
  have 2: "caller_ok s' (w_caller w)"
    using Some c e assms(3,5) by (simp add: caller_ok_def)
  have 3: "w_kind w = Follow \<longrightarrow>
             flush_marks s' ! f + length (queue s') \<le> length (admitted s') \<and>
             (\<forall>t\<in>set (tasks s'). t_id t \<noteq> w_on w \<longrightarrow>
                flush_marks s' ! f + length (t_batch t) \<le> t_upto t)"
  proof
    assume k: "w_kind w = Follow"
    have a: "flush_marks s ! f + length (queue s) \<le> length (admitted s)"
      and b: "\<forall>t\<in>set (tasks s). t_id t \<noteq> w_on w \<longrightarrow>
                flush_marks s ! f + length (t_batch t) \<le> t_upto t"
      using assms(1) Some k by (simp_all add: waiter_ok_def)
    have a': "flush_marks s' ! f + length (queue s') \<le> length (admitted s')"
      using a e assms(6) by linarith
    have b': "\<forall>t\<in>set (tasks s'). t_id t \<noteq> w_on w \<longrightarrow>
                flush_marks s' ! f + length (t_batch t) \<le> t_upto t"
    proof (intro ballI impI)
      fix t' assume t': "t' \<in> set (tasks s')" "t_id t' \<noteq> w_on w"
      then obtain t where "t \<in> set (tasks s)" "t_id t = t_id t'" "t_batch t = t_batch t'"
          "t_upto t = t_upto t'"
        using assms(7) by blast
      then show "flush_marks s' ! f + length (t_batch t') \<le> t_upto t'"
        using b t'(2) e by fastforce
    qed
    show "flush_marks s' ! f + length (queue s') \<le> length (admitted s') \<and>
          (\<forall>t\<in>set (tasks s'). t_id t \<noteq> w_on w \<longrightarrow>
             flush_marks s' ! f + length (t_batch t) \<le> t_upto t)"
      using a' b' by simp
  qed
  show ?thesis using 1 2 3 Some by (simp add: waiter_ok_def)
qed

lemma waiter_ok_frame:
  "waiter_ok s w \<Longrightarrow> next_id s' = next_id s \<Longrightarrow> flush_marks s' = flush_marks s \<Longrightarrow>
   admitted s' = admitted s \<Longrightarrow> queue s' = queue s \<Longrightarrow> set (tasks s') \<subseteq> set (tasks s) \<Longrightarrow>
   waiter_ok s' w"
  by (erule waiter_ok_mono) auto

lemma drain_inv_frame:
  "drain_inv s \<Longrightarrow> waiters s' = waiters s \<Longrightarrow> flush_done s' = flush_done s \<Longrightarrow>
   next_id s' = next_id s \<Longrightarrow> flush_marks s' = flush_marks s \<Longrightarrow>
   admitted s' = admitted s \<Longrightarrow> queue s' = queue s \<Longrightarrow> set (tasks s') \<subseteq> set (tasks s) \<Longrightarrow>
   drain_inv s'"
  unfolding drain_inv_def by (auto intro: waiter_ok_frame)

lemma waiter_ok_settle:
  assumes "waiter_ok s w" "tasks s = [t]" "res_ok a s r"
  shows "waiter_ok (settle t r) w"
  using assms(1)
  by (rule waiter_ok_mono) (simp_all add: tasks_settle res_ok_frame[OF assms(3)] assms(2))

lemma drain_inv_settle:
  assumes "drain_inv s" "tasks s = [t]" "res_ok a s r"
  shows "drain_inv (settle t r)"
  using assms(1) waiter_ok_settle[OF _ assms(2,3)] res_ok_frame[OF assms(3)]
  unfolding drain_inv_def by auto

lemma waiter_ok_push_evict:
  "waiter_ok s w \<Longrightarrow> waiter_ok (push_evict cfg e s) w"
  by (erule waiter_ok_mono) (auto simp: queue_push_evict)

lemma drain_inv_push_evict: "drain_inv s \<Longrightarrow> drain_inv (push_evict cfg e s)"
  unfolding drain_inv_def by (auto intro: waiter_ok_push_evict)

lemma caller_ok_frame:
  "caller_ok s who \<Longrightarrow> flush_marks s' = flush_marks s \<Longrightarrow> admitted s' = admitted s \<Longrightarrow>
   caller_ok s' who"
  by (simp add: caller_ok_def split: option.splits)

lemma drained_idle:
  "caller_ok s (Some f) \<Longrightarrow> queue s = [] \<Longrightarrow> tasks s = [] \<Longrightarrow> drained (mark_of s f) s"
  by (simp add: caller_ok_def drained_def mark_of_def)

lemma drained_follow:
  assumes "waiter_ok s w" "w_caller w = Some f" "w_kind w = Follow"
      and "\<forall>t\<in>set (tasks s). t_id t \<noteq> w_on w"
  shows "drained (mark_of s f) s"
  using assms
  by (auto simp: waiter_ok_def caller_ok_def drained_def mark_of_def list_all_iff)

text \<open>What one call of \<open>flushNow\<close> does to the bookkeeping of the pending callers.\<close>

lemma flushNow_drain:
  assumes q: "calm cb cfg" and g: "guard_inv s" and c: "caller_ok s who"
  shows "drain_inv s \<Longrightarrow> drain_inv (flushNow cb cfg who s)"
    and "\<And>w. waiter_ok s w \<Longrightarrow> waiter_ok (flushNow cb cfg who s) w"
    and "\<forall>t\<in>set (tasks (flushNow cb cfg who s)). t \<in> set (tasks s) \<or> t_id t = next_id s"
    and "next_id s \<le> next_id (flushNow cb cfg who s)"
proof -
  have "(drain_inv s \<longrightarrow> drain_inv (flushNow cb cfg who s)) \<and>
        (\<forall>w. waiter_ok s w \<longrightarrow> waiter_ok (flushNow cb cfg who s) w) \<and>
        (\<forall>t\<in>set (tasks (flushNow cb cfg who s)). t \<in> set (tasks s) \<or> t_id t = next_id s) \<and>
        next_id s \<le> next_id (flushNow cb cfg who s)"
    using g
  proof (cases rule: guard_inv_cases)
    case (busy t)
    let ?w = "\<lparr>w_on = t_id t, w_kind = Rerun, w_caller = who\<rparr>"
    have e: "flushNow cb cfg who s = s\<lparr>waiters := waiters s @ [?w]\<rparr>"
      using busy by (simp add: flushNow_def)
    have nw: "waiter_ok s ?w"
      using busy(3) c by (cases who) (simp_all add: waiter_ok_def task_ok_def)
    have k: "\<And>w. waiter_ok s w \<Longrightarrow> waiter_ok (s\<lparr>waiters := waiters s @ [?w]\<rparr>) w"
      by (erule waiter_ok_frame) simp_all
    show ?thesis unfolding e using nw k by (auto simp: drain_inv_def)
  next
    case idle
    show ?thesis
    proof (cases "queue s = []")
      case True
      have e: "flushNow cb cfg who s = resolve_caller who s"
        using idle True by (simp add: flushNow_def)
      have k: "\<And>w. waiter_ok s w \<Longrightarrow> waiter_ok (resolve_caller who s) w"
        by (erule waiter_ok_frame) simp_all
      have d: "\<forall>d\<in>set (flush_done s). snd d \<Longrightarrow> \<forall>d\<in>set (flush_done (resolve_caller who s)). snd d"
        using drained_idle[OF _ True idle(2)] c
        by (cases who) (auto simp: resolve_caller_def)
      show ?thesis unfolding e using k d by (auto simp: drain_inv_def)
    next
      case False
      let ?s2 = "s\<lparr>timer := False, queue := []\<rparr>"
      let ?s' = "flushNow cb cfg who s"
      let ?tn = "\<lparr>t_id = next_id s, t_batch = queue s,
                 t_attempt = fst (attempt_loop cb cfg (payload_of (queue s)) 0 ?s2),
                 t_phase = fst (snd (attempt_loop cb cfg (payload_of (queue s)) 0 ?s2)),
                 t_upto = length (admitted s)\<rparr>"
      have t2: "tasks ?s2 = []" using idle by simp
      have f: "tasks ?s' = [?tn]" "queue ?s' = []" "admitted ?s' = admitted s"
              "next_id ?s' = Suc (next_id s)" "flush_marks ?s' = flush_marks s"
              "flush_done ?s' = flush_done s"
        using idle False tasks_doWrite[OF q t2 False]
        by (simp_all add: flushNow_calm[OF q] Let_def doWrite_frame[OF q] split: option.splits)
      have fw: "waiters ?s' = waiters s @
                 (case who of None \<Rightarrow> []
                  | Some f \<Rightarrow> [\<lparr>w_on = next_id s, w_kind = Follow, w_caller = who\<rparr>])"
        using idle False by (simp add: flushNow_calm[OF q] Let_def doWrite_frame[OF q] split: option.splits)
      have k: "\<And>w. waiter_ok s w \<Longrightarrow> waiter_ok ?s' w"
      proof -
        fix w assume w: "waiter_ok s w"
        show "waiter_ok ?s' w"
          using w f by (auto simp: waiter_ok_def caller_ok_def split: option.splits)
      qed
      have nw: "\<And>f. who = Some f \<Longrightarrow>
                  waiter_ok ?s' \<lparr>w_on = next_id s, w_kind = Follow, w_caller = who\<rparr>"
        using c f by (simp add: waiter_ok_def caller_ok_def)
      have d: "drain_inv s \<Longrightarrow> drain_inv ?s'"
        using k nw f fw by (cases who) (auto simp: drain_inv_def)
      show ?thesis using k d f by simp
    qed
  qed
  then show "drain_inv s \<Longrightarrow> drain_inv (flushNow cb cfg who s)"
    and "\<And>w. waiter_ok s w \<Longrightarrow> waiter_ok (flushNow cb cfg who s) w"
    and "\<forall>t\<in>set (tasks (flushNow cb cfg who s)). t \<in> set (tasks s) \<or> t_id t = next_id s"
    and "next_id s \<le> next_id (flushNow cb cfg who s)"
    by blast+
qed

lemma drain_fold:
  assumes q: "calm cb cfg" and "guard_inv s" "drain_inv s" "\<forall>w\<in>set ws. waiter_ok s w \<and> w_on w = p"
      and "\<forall>t\<in>set (tasks s). t_id t \<noteq> p" "p < next_id s"
  shows "drain_inv (foldl (\<lambda>s' w. run_waiter cb cfg w s') s ws)"
  using assms(2-)
proof (induction ws arbitrary: s)
  case Nil
  then show ?case by simp
next
  case (Cons w ws)
  let ?s' = "run_waiter cb cfg w s"
  have w: "waiter_ok s w" "w_on w = p" using Cons.prems(3) by simp_all
  have c: "caller_ok s (w_caller w)" using w(1) by (simp add: waiter_ok_def)
  have g': "guard_inv ?s'" using q Cons.prems(1) by (rule guard_inv_run_waiter)
  have step: "drain_inv ?s' \<and> (\<forall>v\<in>set ws. waiter_ok ?s' v \<and> w_on v = p) \<and>
              (\<forall>t\<in>set (tasks ?s'). t_id t \<noteq> p) \<and> p < next_id ?s'"
  proof (cases "w_kind w")
    case Rerun
    then have e: "?s' = flushNow cb cfg (w_caller w) s" by (simp add: run_waiter_def)
    note fd = flushNow_drain[OF q Cons.prems(1) c]
    have 1: "drain_inv (flushNow cb cfg (w_caller w) s)" using fd(1) Cons.prems(2) by simp
    have 2: "\<forall>v\<in>set ws. waiter_ok (flushNow cb cfg (w_caller w) s) v \<and> w_on v = p"
      using fd(2) Cons.prems(3) by simp
    have 3: "\<forall>t\<in>set (tasks (flushNow cb cfg (w_caller w) s)). t_id t \<noteq> p"
      using fd(3) Cons.prems(4,5) by fastforce
    have 4: "p < next_id (flushNow cb cfg (w_caller w) s)"
      using fd(4) Cons.prems(5) by linarith
    show ?thesis unfolding e using 1 2 3 4 by simp
  next
    case Follow
    then have e: "?s' = resolve_caller (w_caller w) s" by (simp add: run_waiter_def)
    have k: "\<And>v. waiter_ok s v \<Longrightarrow> waiter_ok (resolve_caller (w_caller w) s) v"
      by (erule waiter_ok_frame) simp_all
    have d: "\<forall>d\<in>set (flush_done (resolve_caller (w_caller w) s)). snd d"
    proof (cases "w_caller w")
      case None
      then show ?thesis using Cons.prems(2) by (simp add: resolve_caller_def drain_inv_def)
    next
      case (Some f)
      have "drained (mark_of s f) s"
        using drained_follow[OF w(1) Some Follow] Cons.prems(4) w(2) by simp
      then show ?thesis using Some Cons.prems(2) by (auto simp: resolve_caller_def drain_inv_def)
    qed
    show ?thesis unfolding e
      using k d Cons.prems(2,3,4,5) by (auto simp: drain_inv_def)
  qed
  show ?case using Cons.IH[OF g'] step by simp
qed

lemma drain_inv_step:
  assumes qq: "quiet cfg" and g: "guard_inv s" and d: "drain_inv s"
  shows "drain_inv (step d0 cfg s ev)"
proof -
  let ?cb = "callbacks d0 cfg"
  have q: "calm ?cb cfg" using qq by (rule calm_callbacks)
  show ?thesis
  proof (cases ev)
  case (Enqueue e now)
  show ?thesis
  proof (cases "enqueue ?cb cfg e now s")
    case (Inl err)
    then show ?thesis using d Enqueue by simp
  next
    case (Inr s')
    have "drain_inv s'"
      using Inr
    proof (cases rule: enqueue_cases)
      case dropped
      then show ?thesis using d by simp
    next
      case limited
      then show ?thesis using d by (auto intro: drain_inv_frame)
    next
      case pushed
      let ?s1 = "push_evict cfg e (snd (isRateLimited cfg now s))"
      have "drain_inv (snd (isRateLimited cfg now s))"
        using d by (auto intro: drain_inv_frame)
      then have d1: "drain_inv ?s1" by (rule drain_inv_push_evict)
      have g1: "guard_inv ?s1" using g by (auto intro: guard_inv_frame)
      have c1: "caller_ok ?s1 None" by (simp add: caller_ok_def)
      show ?thesis unfolding pushed trigger_def
        using flushNow_drain(1)[OF q g1 c1 d1] d1 by (auto intro: drain_inv_frame)
    qed
    then show ?thesis using Inr Enqueue by simp
  qed
next
  case Flush
  let ?s1 = "s\<lparr>flush_marks := flush_marks s @ [length (admitted s)]\<rparr>"
  have g1: "guard_inv ?s1" using g by (auto intro: guard_inv_frame)
  have c1: "caller_ok ?s1 (Some (length (flush_marks s)))" by (simp add: caller_ok_def)
  have k: "\<And>w. waiter_ok s w \<Longrightarrow> waiter_ok ?s1 w"
    by (erule waiter_ok_mono) (auto simp: nth_append)
  have d1: "drain_inv ?s1" using d k by (auto simp: drain_inv_def)
  show ?thesis using Flush flushNow_drain(1)[OF q g1 c1 d1] by (simp add: flush_def Let_def)
next
  case TimerFire
  let ?s1 = "s\<lparr>timer := False\<rparr>"
  have g1: "guard_inv ?s1" using g by (auto intro: guard_inv_frame)
  have c1: "caller_ok ?s1 None" by (simp add: caller_ok_def)
  have d1: "drain_inv ?s1" using d by (auto intro: drain_inv_frame)
  show ?thesis using TimerFire d flushNow_drain(1)[OF q g1 c1 d1] by (simp add: timerFire_def)
next
  case (WriteSettled p ok)
  from g show ?thesis
  proof (cases rule: guard_inv_cases)
    case idle
    then show ?thesis using d WriteSettled by (simp add: writeSettled_def find_task_nil)
  next
    case (busy t)
    then show ?thesis using d WriteSettled
      by (auto simp: writeSettled_def find_task_single
            intro: drain_inv_settle[OF _ _ res_ok_success] drain_inv_settle[OF _ _ res_ok_on_failure[OF q]])
  qed
next
  case (SleepDone p)
  from g show ?thesis
  proof (cases rule: guard_inv_cases)
    case idle
    then show ?thesis using d SleepDone by (simp add: sleepDone_def find_task_nil)
  next
    case (busy t)
    then show ?thesis using d SleepDone
      by (auto simp: sleepDone_def find_task_single
            intro: drain_inv_settle[OF _ _ res_ok_attempt_loop[OF q]])
  qed
next
  case (FinallyCb p)
  then show ?thesis using d
    by (auto simp: finallyCb_def split: option.splits phase.splits intro: drain_inv_frame)
next
  case (Resolve p)
  show ?thesis
  proof (cases "p < next_id s \<and> find_task p s = None")
    case False
    then show ?thesis using d Resolve by (auto simp: resolve_def)
  next
    case True
    let ?s1 = "s\<lparr>waiters := filter (\<lambda>w. w_on w \<noteq> p) (waiters s)\<rparr>"
    let ?ws = "filter (\<lambda>w. w_on w = p) (waiters s)"
    have g1: "guard_inv ?s1" using g by (auto intro: guard_inv_frame)
    have k: "\<And>w. waiter_ok s w \<Longrightarrow> waiter_ok ?s1 w"
      by (erule waiter_ok_frame) simp_all
    have d1: "drain_inv ?s1" using d k by (auto simp: drain_inv_def)
    have w1: "\<forall>w\<in>set ?ws. waiter_ok ?s1 w \<and> w_on w = p"
      using d k by (auto simp: drain_inv_def)
    have t1: "\<forall>t\<in>set (tasks ?s1). t_id t \<noteq> p"
      using True by (auto simp: find_task_def find_None_iff)
    have "drain_inv (foldl (\<lambda>s' w. run_waiter ?cb cfg w s') ?s1 ?ws)"
      using drain_fold[OF q g1 d1 w1 t1] True by simp
    then show ?thesis using Resolve True by (simp add: resolve_def)
  qed
next
  case Destroy
  then show ?thesis using d by (auto intro: drain_inv_frame)
qed
qed

lemma drain_inv_run: "quiet cfg \<Longrightarrow> drain_inv (run d cfg evs)"
proof (induction evs rule: rev_induct)
  case Nil
  show ?case by (simp add: run_def drain_inv_def new_slot_def)
next
  case (snoc ev evs)
  then show ?case by (simp add: run_snoc drain_inv_step guard_inv_run)
qed

subsection \<open>Evaluating concrete runs\<close>

lemmas slot_eval =
  run_def enqueue_def isRateLimited_def push_evict_def trigger_def flushNow_def doWrite_def
  settle_def set_task_def attempt_loop.simps on_failure_def payload_of_def new_slot_def armTimer_def
  destroy_def flush_def timerFire_def writeSettled_def sleepDone_def finallyCb_def
  resolve_def run_waiter_def resolve_caller_def find_task_def drained_def mark_of_def
  info_entry_def LEVEL_ORDER_def Let_def

subsection \<open>One write at a time\<close>

text \<open>
  For a transport that does not call the logger from inside \<open>write\<close>, the guard does what
  its comment says (``ensures sequential writes to the transport''): in every state the
  event loop can reach there is at most one activation of \<open>doWrite\<close>, hence at most one
  outstanding write, and \<open>flushPromise\<close> holds its promise. A \<open>flushNow\<close> that finds
  \<open>flushPromise\<close> set makes no write and leaves the queue alone, for every transport: it
  only registers a reaction on that promise; and the reactions on a promise do not run
  while its activation is still there.
\<close>

lemma one_write_without_reentry:
  assumes q: "quiet cfg"
  shows "length (tasks (run d cfg evs)) \<le> 1 \<and>
   length (filter (\<lambda>t. t_phase t = Awaiting) (tasks (run d cfg evs))) \<le> 1 \<and>
   (\<forall>t\<in>set (tasks (run d cfg evs)). flushPromise (run d cfg evs) = Some (t_id t)) \<and>
   (\<forall>p who. flushPromise s = Some p \<longrightarrow>
      flushNow cb cfg who s = s\<lparr>waiters := waiters s @ [\<lparr>w_on = p, w_kind = Rerun, w_caller = who\<rparr>]\<rparr>) \<and>
   (\<forall>p. find_task p s \<noteq> None \<longrightarrow> resolve cb cfg p s = s)"
proof -
  let ?s = "run d cfg evs"
  have g: "guard_inv ?s" by (rule guard_inv_run[OF q])
  have 1: "length (tasks ?s) \<le> 1" using g by (auto simp: guard_inv_def)
  have 2: "length (filter (\<lambda>t. t_phase t = Awaiting) (tasks ?s)) \<le> 1"
    using g by (auto simp: guard_inv_def)
  have 3: "\<forall>t\<in>set (tasks ?s). flushPromise ?s = Some (t_id t)"
    using g by (auto simp: guard_inv_def)
  have 4: "\<forall>p who. flushPromise s = Some p \<longrightarrow>
      flushNow cb cfg who s = s\<lparr>waiters := waiters s @ [\<lparr>w_on = p, w_kind = Rerun, w_caller = who\<rparr>]\<rparr>"
    by (simp add: flushNow_def)
  have 5: "\<forall>p. find_task p s \<noteq> None \<longrightarrow> resolve cb cfg p s = s"
    by (simp add: resolve_def)
  show ?thesis using 1 2 3 4 5 by blast
qed

text \<open>
  Claim C2 at a failing input: a slot with the default configuration whose transport, in
  its first call of \<open>write\<close>, logs an entry \<open>b\<close> through the logger and then returns a
  promise, and returns a promise in every later call. The application logs \<open>a\<close>. The
  write of \<open>a\<close> is called inside \<open>doWrite\<close>, before line 117 has stored a promise in
  \<open>flushPromise\<close>; so the \<open>enqueue\<close> of \<open>b\<close> made from inside that write finds
  \<open>flushPromise\<close> \<open>null\<close> and starts a write of its own. When the call of the application
  returns, two write calls are outstanding, and \<open>flushPromise\<close> holds the promise of the
  first only. When the write of \<open>b\<close> completes, its \<open>finally\<close> callback clears
  \<open>flushPromise\<close> while the write of \<open>a\<close> is still outstanding, and the next entry \<open>c\<close>
  is written at once, overlapping it.
\<close>

theorem reentrant_write_overlaps:
  "map (\<lambda>t. (t_id t, t_phase t, t_batch t))
     (tasks (run (Suc 0)
        (default_config (\<lambda>h. if length h = 1 then ([CallEnqueue (info_entry ''b'') 0], Pending)
                               else ([], Pending)))
        [Enqueue (info_entry ''a'') 0])) =
     [(0, Awaiting, [info_entry ''a'']), (1, Awaiting, [info_entry ''b''])] \<and>
   writes (run (Suc 0)
        (default_config (\<lambda>h. if length h = 1 then ([CallEnqueue (info_entry ''b'') 0], Pending)
                               else ([], Pending)))
        [Enqueue (info_entry ''a'') 0]) =
     [(0, Single (info_entry ''a'')), (0, Single (info_entry ''b''))] \<and>
   flushPromise (run (Suc 0)
        (default_config (\<lambda>h. if length h = 1 then ([CallEnqueue (info_entry ''b'') 0], Pending)
                               else ([], Pending)))
        [Enqueue (info_entry ''a'') 0]) = Some 0 \<and>
   flushPromise (run (Suc 0)
        (default_config (\<lambda>h. if length h = 1 then ([CallEnqueue (info_entry ''b'') 0], Pending)
                               else ([], Pending)))
        [Enqueue (info_entry ''a'') 0, WriteSettled 1 True, FinallyCb 1]) = None \<and>
   map (\<lambda>t. (t_id t, t_phase t, t_batch t))
     (tasks (run (Suc 0)
        (default_config (\<lambda>h. if length h = 1 then ([CallEnqueue (info_entry ''b'') 0], Pending)
                               else ([], Pending)))
        [Enqueue (info_entry ''a'') 0, WriteSettled 1 True, FinallyCb 1,
         Enqueue (info_entry ''c'') 0])) =
     [(0, Awaiting, [info_entry ''a'']), (2, Awaiting, [info_entry ''c''])]"
  by (simp add: slot_eval)

subsection \<open>FIFO delivery\<close>

lemma subseq_mset_eq:
  assumes "subseq xs ys" "mset xs = mset ys" shows "xs = ys"
  using assms subseq_same_length[of xs ys] mset_eq_length[of xs ys] by simp

lemma enqueue_admitted:
  assumes q: "calm cb cfg"
  shows "enqueue cb cfg e now s = Inr s' \<longrightarrow>
      admitted s' =
        (if (case minLevel cfg of None \<Rightarrow> True
             | Some m \<Rightarrow> \<not> indexOf LEVEL_ORDER (level e) < indexOf LEVEL_ORDER m) \<and>
            (case filter_fn cfg of None \<Rightarrow> True | Some f \<Rightarrow> f e = Inr True) \<and>
            \<not> fst (isRateLimited cfg now s)
         then admitted s @ [e] else admitted s)"
proof
  assume a: "enqueue cb cfg e now s = Inr s'"
  obtain b s1 where r: "isRateLimited cfg now s = (b, s1)"
    by (cases "isRateLimited cfg now s")
  have s1: "admitted s1 = admitted s"
    using isRateLimited_frame(5)[of cfg now s] r by simp
  show "admitted s' =
        (if (case minLevel cfg of None \<Rightarrow> True
             | Some m \<Rightarrow> \<not> indexOf LEVEL_ORDER (level e) < indexOf LEVEL_ORDER m) \<and>
            (case filter_fn cfg of None \<Rightarrow> True | Some f \<Rightarrow> f e = Inr True) \<and>
            \<not> fst (isRateLimited cfg now s)
         then admitted s @ [e] else admitted s)"
    using a r s1 q
    by (auto simp: enqueue_def trigger_def split: option.splits sum.splits bool.splits if_splits)
qed

text \<open>
  For a transport that does not call the logger from inside \<open>write\<close>, in every reachable
  state: the entries of the batches handed to the transport, in call order, followed by
  the entries still in the queue, are the admitted entries in admission order with the
  evicted ones left out. Every write call is the first attempt of a new batch or the
  next attempt of the batch written just before. The batches the transport accepted
  are, in order, among the batches handed to it, and a batch handed to it is accepted,
  given up after its retries, or still being written. So when nothing is pending and no
  batch was given up, the concatenation of the delivered batches is the sequence of
  admitted entries that survived eviction. An entry is admitted, that is appended to
  \<open>admitted\<close>, exactly when it passes the level filter, the custom filter and the rate
  limit.
\<close>

lemma fifo_without_reentry:
  assumes q: "quiet cfg"
  shows "subseq (handed_over (run d cfg evs) @ queue (run d cfg evs)) (admitted (run d cfg evs)) \<and>
   mset (admitted (run d cfg evs)) =
     mset (handed_over (run d cfg evs)) + mset (queue (run d cfg evs)) + mset (evicted (run d cfg evs)) \<and>
   (evicted (run d cfg evs) = [] \<longrightarrow>
      handed_over (run d cfg evs) @ queue (run d cfg evs) = admitted (run d cfg evs)) \<and>
   chain_ok (writes (run d cfg evs)) \<and>
   subseq (delivered (run d cfg evs)) (map entries_of (first_attempts (run d cfg evs))) \<and>
   mset (map entries_of (first_attempts (run d cfg evs))) =
     mset (delivered (run d cfg evs)) + mset (discarded (run d cfg evs)) + mset (in_flight (run d cfg evs)) \<and>
   (queue (run d cfg evs) = [] \<and> discarded (run d cfg evs) = [] \<and> in_flight (run d cfg evs) = [] \<longrightarrow>
      subseq (concat (delivered (run d cfg evs))) (admitted (run d cfg evs)) \<and>
      mset (admitted (run d cfg evs)) =
        mset (concat (delivered (run d cfg evs))) + mset (evicted (run d cfg evs)) \<and>
      (evicted (run d cfg evs) = [] \<longrightarrow> concat (delivered (run d cfg evs)) = admitted (run d cfg evs))) \<and>
   (enqueue (callbacks d cfg) cfg e now s = Inr s' \<longrightarrow>
      admitted s' =
        (if (case minLevel cfg of None \<Rightarrow> True
             | Some m \<Rightarrow> \<not> indexOf LEVEL_ORDER (level e) < indexOf LEVEL_ORDER m) \<and>
            (case filter_fn cfg of None \<Rightarrow> True | Some f \<Rightarrow> f e = Inr True) \<and>
            \<not> fst (isRateLimited cfg now s)
         then admitted s @ [e] else admitted s))"
proof -
  let ?s = "run d cfg evs"
  have adm: "enqueue (callbacks d cfg) cfg e now s = Inr s' \<longrightarrow>
      admitted s' =
        (if (case minLevel cfg of None \<Rightarrow> True
             | Some m \<Rightarrow> \<not> indexOf LEVEL_ORDER (level e) < indexOf LEVEL_ORDER m) \<and>
            (case filter_fn cfg of None \<Rightarrow> True | Some f \<Rightarrow> f e = Inr True) \<and>
            \<not> fst (isRateLimited cfg now s)
         then admitted s @ [e] else admitted s)"
    by (rule enqueue_admitted[OF calm_callbacks[OF q]])
  have l: "log_inv ?s" by (rule log_inv_run[OF q])
  have f1: "subseq (handed_over ?s @ queue ?s) (admitted ?s)"
    and f2: "mset (admitted ?s) = mset (handed_over ?s) + mset (queue ?s) + mset (evicted ?s)"
    using l by (simp_all add: log_inv_def fifo_inv_def)
  have f3: "evicted ?s = [] \<longrightarrow> handed_over ?s @ queue ?s = admitted ?s"
    using f1 f2 subseq_mset_eq[of "handed_over ?s @ queue ?s" "admitted ?s"] by simp
  have c: "chain_ok (writes ?s)" using l by (simp add: log_inv_def calls_inv_def)
  from l obtain F where F: "map entries_of (first_attempts ?s) = F @ in_flight ?s"
      "subseq (delivered ?s) F" "mset F = mset (delivered ?s) + mset (discarded ?s)"
    by (auto simp: log_inv_def batch_inv_def)
  have b1: "subseq (delivered ?s) (map entries_of (first_attempts ?s))"
    using F(1,2) by (simp add: subseq_rev_drop_many)
  have b2: "mset (map entries_of (first_attempts ?s)) =
              mset (delivered ?s) + mset (discarded ?s) + mset (in_flight ?s)"
    using F(1,3) by simp
  have dd: "queue ?s = [] \<and> discarded ?s = [] \<and> in_flight ?s = [] \<longrightarrow>
             concat (delivered ?s) = handed_over ?s"
  proof
    assume a: "queue ?s = [] \<and> discarded ?s = [] \<and> in_flight ?s = []"
    then have "delivered ?s = F" using F(2,3) subseq_mset_eq[of "delivered ?s" F] by simp
    then show "concat (delivered ?s) = handed_over ?s"
      using F(1) a by (simp add: handed_over_def)
  qed
  have main: "queue ?s = [] \<and> discarded ?s = [] \<and> in_flight ?s = [] \<longrightarrow>
      subseq (concat (delivered ?s)) (admitted ?s) \<and>
      mset (admitted ?s) = mset (concat (delivered ?s)) + mset (evicted ?s) \<and>
      (evicted ?s = [] \<longrightarrow> concat (delivered ?s) = admitted ?s)"
    using f1 f2 f3 dd by auto
  show ?thesis by (intro conjI f1 f2 f3 c b1 b2 main adm)
qed

text \<open>
  Claim C1 at a failing input: a slot with \<open>maxRetries = 1\<close> (and the defaults otherwise)
  whose transport, in its first call of \<open>write\<close>, logs an entry \<open>b\<close> through the logger
  and then throws, and accepts every later call. The application logs \<open>a\<close>. The
  \<open>enqueue\<close> of \<open>b\<close> made from inside the write of \<open>a\<close> finds \<open>flushPromise\<close> \<open>null\<close>, since
  line 117 stores the promise only after \<open>doWrite\<close> has called \<open>write\<close>; so \<open>b\<close> is
  written and accepted at once, and \<open>a\<close> is accepted after it, at its retry. Both entries
  were admitted, \<open>a\<close> before \<open>b\<close>; nothing was evicted or given up and nothing is pending;
  the delivered batches are \<open>[b]\<close>, \<open>[a]\<close>.
\<close>

theorem reentrant_write_reorders:
  "admitted (run (Suc 0)
      ((default_config (\<lambda>h. if length h = 1 then ([CallEnqueue (info_entry ''b'') 0], Throws)
                              else ([], Returns)))\<lparr>maxRetries := 1\<rparr>)
      [Enqueue (info_entry ''a'') 0]) = [info_entry ''a'', info_entry ''b''] \<and>
   writes (run (Suc 0)
      ((default_config (\<lambda>h. if length h = 1 then ([CallEnqueue (info_entry ''b'') 0], Throws)
                              else ([], Returns)))\<lparr>maxRetries := 1\<rparr>)
      [Enqueue (info_entry ''a'') 0]) =
     [(0, Single (info_entry ''a'')), (0, Single (info_entry ''b'')), (1, Single (info_entry ''a''))] \<and>
   delivered (run (Suc 0)
      ((default_config (\<lambda>h. if length h = 1 then ([CallEnqueue (info_entry ''b'') 0], Throws)
                              else ([], Returns)))\<lparr>maxRetries := 1\<rparr>)
      [Enqueue (info_entry ''a'') 0]) = [[info_entry ''b''], [info_entry ''a'']] \<and>
   concat (delivered (run (Suc 0)
      ((default_config (\<lambda>h. if length h = 1 then ([CallEnqueue (info_entry ''b'') 0], Throws)
                              else ([], Returns)))\<lparr>maxRetries := 1\<rparr>)
      [Enqueue (info_entry ''a'') 0])) \<noteq>
   admitted (run (Suc 0)
      ((default_config (\<lambda>h. if length h = 1 then ([CallEnqueue (info_entry ''b'') 0], Throws)
                              else ([], Returns)))\<lparr>maxRetries := 1\<rparr>)
      [Enqueue (info_entry ''a'') 0]) \<and>
   queue (run (Suc 0)
      ((default_config (\<lambda>h. if length h = 1 then ([CallEnqueue (info_entry ''b'') 0], Throws)
                              else ([], Returns)))\<lparr>maxRetries := 1\<rparr>)
      [Enqueue (info_entry ''a'') 0]) = [] \<and>
   evicted (run (Suc 0)
      ((default_config (\<lambda>h. if length h = 1 then ([CallEnqueue (info_entry ''b'') 0], Throws)
                              else ([], Returns)))\<lparr>maxRetries := 1\<rparr>)
      [Enqueue (info_entry ''a'') 0]) = [] \<and>
   discarded (run (Suc 0)
      ((default_config (\<lambda>h. if length h = 1 then ([CallEnqueue (info_entry ''b'') 0], Throws)
                              else ([], Returns)))\<lparr>maxRetries := 1\<rparr>)
      [Enqueue (info_entry ''a'') 0]) = [] \<and>
   in_flight (run (Suc 0)
      ((default_config (\<lambda>h. if length h = 1 then ([CallEnqueue (info_entry ''b'') 0], Throws)
                              else ([], Returns)))\<lparr>maxRetries := 1\<rparr>)
      [Enqueue (info_entry ''a'') 0]) = []"
  by (simp add: slot_eval in_flight_def unfinished_def)

subsection \<open>Capacity eviction\<close>

lemma flushNow_idle_first_attempts:
  assumes q: "calm cb cfg" and "flushPromise s = None" "tasks s = []" "queue s \<noteq> []"
  shows "first_attempts (flushNow cb cfg who s) = first_attempts s @ [payload_of (queue s)]"
    and "queue (flushNow cb cfg who s) = []"
    and "delivered (flushNow cb cfg who s) =
           (if fst (snd (attempt_loop cb cfg (payload_of (queue s)) 0 (s\<lparr>timer := False, queue := []\<rparr>)))
                 = Finished True
            then delivered s @ [queue s] else delivered s)"
proof -
  let ?s2 = "s\<lparr>timer := False, queue := []\<rparr>"
  have t2: "tasks ?s2 = []" using assms by simp
  have w: "writes (flushNow cb cfg who s) = writes (doWrite cb cfg (queue s) ?s2)"
          "delivered (flushNow cb cfg who s) = delivered (doWrite cb cfg (queue s) ?s2)"
    using assms by (simp_all add: flushNow_calm[OF q] Let_def split: option.splits)
  show "first_attempts (flushNow cb cfg who s) = first_attempts s @ [payload_of (queue s)]"
    using doWrite_logs(1)[OF q t2 assms(4)] w by (simp add: first_attempts_def)
  show "queue (flushNow cb cfg who s) = []"
    using assms by (simp add: flushNow_calm[OF q] Let_def doWrite_frame[OF q] split: option.splits)
  show "delivered (flushNow cb cfg who s) =
           (if fst (snd (attempt_loop cb cfg (payload_of (queue s)) 0 ?s2)) = Finished True
            then delivered s @ [queue s] else delivered s)"
    using doWrite_logs(3)[OF q t2 assms(4)] w by simp
qed

text \<open>A write that calls no logger and returns: the batch is delivered at once.\<close>

lemma attempt_loop_accepts:
  assumes "transport cfg (map snd (writes s) @ [p]) = ([], Returns)"
  shows "attempt_loop (callbacks d cfg) cfg p a s = (a, Finished True, s\<lparr>writes := writes s @ [(a, p)]\<rparr>)"
  using assms by (subst attempt_loop.simps) (simp add: Let_def)

lemma flushNow_idle_accepts:
  assumes "flushPromise s = None" "tasks s = []" "queue s \<noteq> []"
      and "transport cfg (map snd (writes s) @ [payload_of (queue s)]) = ([], Returns)"
  shows "writes (flushNow (callbacks d cfg) cfg who s) = writes s @ [(0, payload_of (queue s))]"
    and "delivered (flushNow (callbacks d cfg) cfg who s) = delivered s @ [queue s]"
proof -
  let ?s1 = "s\<lparr>timer := False, queue := [],
               tasks := [\<lparr>t_id = next_id s, t_batch = queue s, t_attempt = 0, t_phase = Running,
                          t_upto = length (admitted s)\<rparr>], next_id := Suc (next_id s)\<rparr>"
  have t: "transport cfg (map snd (writes ?s1) @ [payload_of (queue s)]) = ([], Returns)"
    using assms(4) by simp
  have e: "doWrite (callbacks d cfg) cfg (queue s) (s\<lparr>timer := False, queue := []\<rparr>) =
      settle \<lparr>t_id = next_id s, t_batch = queue s, t_attempt = 0, t_phase = Running,
               t_upto = length (admitted s)\<rparr>
        (0, Finished True, ?s1\<lparr>writes := writes ?s1 @ [(0, payload_of (queue s))]\<rparr>)"
    using assms(2,3) attempt_loop_accepts[OF t, of d 0] by (simp add: doWrite_def Let_def)
  show "writes (flushNow (callbacks d cfg) cfg who s) = writes s @ [(0, payload_of (queue s))]"
    using assms(1,3) by (simp add: flushNow_def Let_def e split: option.splits)
  show "delivered (flushNow (callbacks d cfg) cfg who s) = delivered s @ [queue s]"
    using assms(1,3) by (simp add: flushNow_def Let_def e settle_logs split: option.splits)
qed

lemma prefix_single_take: "prefix [x] ys \<Longrightarrow> take (Suc 0) ys = [x]"
  by (auto simp: prefix_def)

lemma suffix_drop_conv: "suffix xs ys \<Longrightarrow> xs = drop (length ys - length xs) ys"
  by (auto simp: suffix_def)

lemma enqueue_buffered:
  assumes "minLevel cfg = None" "filter_fn cfg = None" "rateLimit cfg \<le> 0"
      and "\<not> (batchSize cfg \<le> 1 \<or> int (length (queue (push_evict cfg e s))) \<ge> batchSize cfg)"
  shows "enqueue cb cfg e now s = Inr (armTimer cfg (push_evict cfg e s))"
  using assms by (simp add: enqueue_def isRateLimited_def trigger_def)

lemma enqueue_flushing:
  assumes "minLevel cfg = None" "filter_fn cfg = None" "rateLimit cfg \<le> 0"
      and "batchSize cfg \<le> 1 \<or> int (length (queue (push_evict cfg e s))) \<ge> batchSize cfg"
  shows "enqueue cb cfg e now s = Inr (flushNow cb cfg None (push_evict cfg e s))"
  using assms by (simp add: enqueue_def isRateLimited_def trigger_def)

lemma run_Cons_simps:
  "run d cfg [] = new_slot"
  "run d cfg (evs @ [Enqueue e now]) =
     (case enqueue (callbacks d cfg) cfg e now (run d cfg evs) of
        Inl err \<Rightarrow> run d cfg evs | Inr s' \<Rightarrow> s')"
  "run d cfg (evs @ [Flush]) = flush (callbacks d cfg) cfg (run d cfg evs)"
  by (simp_all add: run_snoc) (simp add: run_def)

text \<open>
  Claim C6. With \<open>maxQueueSize = N > 0\<close>, in every reachable state (so after every
  enqueue), whatever the transport does, the queue has at most \<open>N\<close> entries and they are
  the most recently admitted ones, in admission order; and pushing one more admitted
  entry leaves the \<open>min N (length queue + 1)\<close> most recently admitted entries, the new one
  last. With \<open>N = 2\<close> and three admissions with no flush in between (a batch size above
  2, no filter, no rate limit), the queue is the second and third entry, the first is
  evicted, and a flush hands the batch of the second and third entry to the transport:
  it is the payload of the first write call; it is the only batch handed over when the
  transport does not call the logger from inside \<open>write\<close>; and it is delivered when that
  write calls no logger and returns.
\<close>

theorem capacity_eviction:
  "maxQueueSize cfg > 0 \<longrightarrow>
     int (length (queue (run d cfg evs))) \<le> maxQueueSize cfg \<and>
     queue (run d cfg evs) =
       drop (length (admitted (run d cfg evs)) - length (queue (run d cfg evs))) (admitted (run d cfg evs)) \<and>
     (\<forall>e. queue (push_evict cfg e (run d cfg evs)) =
            drop (Suc (length (admitted (run d cfg evs))) -
                    min (nat (maxQueueSize cfg)) (Suc (length (queue (run d cfg evs)))))
              (admitted (run d cfg evs) @ [e])) \<and>
     (maxQueueSize cfg = 2 \<and> batchSize cfg > 2 \<and> minLevel cfg = None \<and> filter_fn cfg = None \<and>
      rateLimit cfg \<le> 0 \<longrightarrow>
        queue (run d cfg [Enqueue ea na, Enqueue eb nb, Enqueue ec nc]) = [eb, ec] \<and>
        evicted (run d cfg [Enqueue ea na, Enqueue eb nb, Enqueue ec nc]) = [ea] \<and>
        writes (run d cfg [Enqueue ea na, Enqueue eb nb, Enqueue ec nc]) = [] \<and>
        take (Suc 0) (writes (run d cfg [Enqueue ea na, Enqueue eb nb, Enqueue ec nc, Flush])) =
          [(0, Batch [eb, ec])] \<and>
        (quiet cfg \<longrightarrow>
           first_attempts (run d cfg [Enqueue ea na, Enqueue eb nb, Enqueue ec nc, Flush]) =
             [Batch [eb, ec]]) \<and>
        (transport cfg [Batch [eb, ec]] = ([], Returns) \<longrightarrow>
           writes (run d cfg [Enqueue ea na, Enqueue eb nb, Enqueue ec nc, Flush]) =
             [(0, Batch [eb, ec])] \<and>
           delivered (run d cfg [Enqueue ea na, Enqueue eb nb, Enqueue ec nc, Flush]) = [[eb, ec]]))"
proof (intro impI)
  assume n: "maxQueueSize cfg > 0"
  let ?cb = "callbacks d cfg"
  let ?s = "run d cfg evs"
  have q: "queue_inv cfg ?s" by (rule queue_inv_run)
  have sf: "suffix (queue ?s) (admitted ?s)" using q by (simp add: queue_inv_def)
  have 1: "int (length (queue ?s)) \<le> maxQueueSize cfg" using q n by (simp add: queue_inv_def)
  have 2: "queue ?s = drop (length (admitted ?s) - length (queue ?s)) (admitted ?s)"
    using sf by (rule suffix_drop_conv)
  have le: "length (queue ?s) \<le> length (admitted ?s)" using sf by (rule suffix_length_le)
  have 3: "\<forall>e. queue (push_evict cfg e ?s) =
            drop (Suc (length (admitted ?s)) - min (nat (maxQueueSize cfg)) (Suc (length (queue ?s))))
              (admitted ?s @ [e])"
  proof
    fix e
    have s1: "queue ?s @ [e] = drop (length (admitted ?s) - length (queue ?s)) (admitted ?s @ [e])"
      using 2 le by simp
    show "queue (push_evict cfg e ?s) =
            drop (Suc (length (admitted ?s)) - min (nat (maxQueueSize cfg)) (Suc (length (queue ?s))))
              (admitted ?s @ [e])"
    proof (cases "int (length (queue ?s)) + 1 > maxQueueSize cfg")
      case True
      then have len: "length (queue ?s) = nat (maxQueueSize cfg)" using 1 n by linarith
      have "queue (push_evict cfg e ?s) = tl (queue ?s @ [e])"
        using True n by (simp add: queue_push_evict)
      also have "\<dots> = drop 1 (queue ?s @ [e])"
        by (simp only: One_nat_def drop_Suc drop_0)
      also have "\<dots> = drop 1 (drop (length (admitted ?s) - length (queue ?s)) (admitted ?s @ [e]))"
        by (simp only: s1[symmetric])
      also have "\<dots> = drop (Suc (length (admitted ?s)) - length (queue ?s)) (admitted ?s @ [e])"
        using le by (simp add: Suc_diff_le)
      finally show ?thesis using len by (simp add: min_def)
    next
      case False
      then have m: "min (nat (maxQueueSize cfg)) (Suc (length (queue ?s))) = Suc (length (queue ?s))"
        by linarith
      have "queue (push_evict cfg e ?s) = queue ?s @ [e]"
        using False by (simp add: queue_push_evict)
      then show ?thesis using s1 m by simp
    qed
  qed
  have 4: "maxQueueSize cfg = 2 \<and> batchSize cfg > 2 \<and> minLevel cfg = None \<and> filter_fn cfg = None \<and>
      rateLimit cfg \<le> 0 \<longrightarrow>
        queue (run d cfg [Enqueue ea na, Enqueue eb nb, Enqueue ec nc]) = [eb, ec] \<and>
        evicted (run d cfg [Enqueue ea na, Enqueue eb nb, Enqueue ec nc]) = [ea] \<and>
        writes (run d cfg [Enqueue ea na, Enqueue eb nb, Enqueue ec nc]) = [] \<and>
        take (Suc 0) (writes (run d cfg [Enqueue ea na, Enqueue eb nb, Enqueue ec nc, Flush])) =
          [(0, Batch [eb, ec])] \<and>
        (quiet cfg \<longrightarrow>
           first_attempts (run d cfg [Enqueue ea na, Enqueue eb nb, Enqueue ec nc, Flush]) =
             [Batch [eb, ec]]) \<and>
        (transport cfg [Batch [eb, ec]] = ([], Returns) \<longrightarrow>
           writes (run d cfg [Enqueue ea na, Enqueue eb nb, Enqueue ec nc, Flush]) =
             [(0, Batch [eb, ec])] \<and>
           delivered (run d cfg [Enqueue ea na, Enqueue eb nb, Enqueue ec nc, Flush]) = [[eb, ec]])"
  proof
    assume a: "maxQueueSize cfg = 2 \<and> batchSize cfg > 2 \<and> minLevel cfg = None \<and>
               filter_fn cfg = None \<and> rateLimit cfg \<le> 0"
    let ?s1 = "armTimer cfg (push_evict cfg ea new_slot)"
    let ?s2 = "armTimer cfg (push_evict cfg eb ?s1)"
    let ?s3 = "armTimer cfg (push_evict cfg ec ?s2)"
    have q1: "queue ?s1 = [ea]" "evicted ?s1 = []"
      using a by (simp_all add: queue_push_evict new_slot_def)
    have q2: "queue ?s2 = [ea, eb]" "evicted ?s2 = []"
      using a q1 by (simp_all add: queue_push_evict)
    have q3: "queue ?s3 = [eb, ec]" "evicted ?s3 = [ea]"
      using a q2 by (simp_all add: queue_push_evict)
    have r1: "run d cfg [Enqueue ea na] = ?s1"
      using run_Cons_simps(2)[of d cfg "[]" ea na] enqueue_buffered[of cfg ea new_slot ?cb na] a q1
      by (simp add: run_Cons_simps(1))
    have r2: "run d cfg [Enqueue ea na, Enqueue eb nb] = ?s2"
      using run_Cons_simps(2)[of d cfg "[Enqueue ea na]" eb nb]
        enqueue_buffered[of cfg eb ?s1 ?cb nb] a q2 r1
      by simp
    have r3: "run d cfg [Enqueue ea na, Enqueue eb nb, Enqueue ec nc] = ?s3"
      using run_Cons_simps(2)[of d cfg "[Enqueue ea na, Enqueue eb nb]" ec nc]
        enqueue_buffered[of cfg ec ?s2 ?cb nc] a q3 r2
      by simp
    have i: "flushPromise ?s3 = None" "tasks ?s3 = []" "queue ?s3 = [eb, ec]" "writes ?s3 = []"
            "delivered ?s3 = []" "evicted ?s3 = [ea]"
      using q3 by (simp_all add: new_slot_def)
    let ?s3' = "?s3\<lparr>flush_marks := flush_marks ?s3 @ [length (admitted ?s3)]\<rparr>"
    have e4: "run d cfg [Enqueue ea na, Enqueue eb nb, Enqueue ec nc, Flush] =
              flushNow ?cb cfg (Some (length (flush_marks ?s3))) ?s3'"
      using run_Cons_simps(3)[of d cfg "[Enqueue ea na, Enqueue eb nb, Enqueue ec nc]"] r3
      by (simp add: flush_def Let_def)
    have i': "flushPromise ?s3' = None" "tasks ?s3' = []" "queue ?s3' \<noteq> []"
      using i by simp_all
    have p: "payload_of (queue ?s3') = Batch [eb, ec]" using i by (simp add: payload_of_def)
    have w3: "writes ?s3' = []" using i by simp
    have tk: "take (Suc 0) (writes (run d cfg [Enqueue ea na, Enqueue eb nb, Enqueue ec nc, Flush])) =
                [(0, Batch [eb, ec])]"
      unfolding e4
      using flushNow_first_write[OF callbacks_extends i'(1,3),
              where d1 = d and cfg1 = cfg and cfg = cfg and who = "Some (length (flush_marks ?s3))"]
      by (simp only: p w3 append_Nil prefix_single_take)
    have fa: "quiet cfg \<longrightarrow>
        first_attempts (run d cfg [Enqueue ea na, Enqueue eb nb, Enqueue ec nc, Flush]) =
                [Batch [eb, ec]]"
    proof
      assume qq: "quiet cfg"
      show "first_attempts (run d cfg [Enqueue ea na, Enqueue eb nb, Enqueue ec nc, Flush]) =
                [Batch [eb, ec]]"
        unfolding e4 using flushNow_idle_first_attempts(1)[OF calm_callbacks[OF qq] i'] i
        by (simp add: first_attempts_def payload_of_def)
    qed
    have dl: "transport cfg [Batch [eb, ec]] = ([], Returns) \<longrightarrow>
           writes (run d cfg [Enqueue ea na, Enqueue eb nb, Enqueue ec nc, Flush]) =
             [(0, Batch [eb, ec])] \<and>
           delivered (run d cfg [Enqueue ea na, Enqueue eb nb, Enqueue ec nc, Flush]) = [[eb, ec]]"
    proof
      assume t: "transport cfg [Batch [eb, ec]] = ([], Returns)"
      have t': "transport cfg (map snd (writes ?s3') @ [payload_of (queue ?s3')]) = ([], Returns)"
        using t by (simp only: p w3 list.map append_Nil)
      have d3: "delivered ?s3' = []" using i by simp
      have q3': "queue ?s3' = [eb, ec]" using i by simp
      show "writes (run d cfg [Enqueue ea na, Enqueue eb nb, Enqueue ec nc, Flush]) =
             [(0, Batch [eb, ec])] \<and>
           delivered (run d cfg [Enqueue ea na, Enqueue eb nb, Enqueue ec nc, Flush]) = [[eb, ec]]"
        unfolding e4
        using flushNow_idle_accepts[OF i' t', where d = d and who = "Some (length (flush_marks ?s3))"] i
        by (simp add: payload_of_def)
    qed
    show "queue (run d cfg [Enqueue ea na, Enqueue eb nb, Enqueue ec nc]) = [eb, ec] \<and>
        evicted (run d cfg [Enqueue ea na, Enqueue eb nb, Enqueue ec nc]) = [ea] \<and>
        writes (run d cfg [Enqueue ea na, Enqueue eb nb, Enqueue ec nc]) = [] \<and>
        take (Suc 0) (writes (run d cfg [Enqueue ea na, Enqueue eb nb, Enqueue ec nc, Flush])) =
          [(0, Batch [eb, ec])] \<and>
        (quiet cfg \<longrightarrow>
           first_attempts (run d cfg [Enqueue ea na, Enqueue eb nb, Enqueue ec nc, Flush]) =
             [Batch [eb, ec]]) \<and>
        (transport cfg [Batch [eb, ec]] = ([], Returns) \<longrightarrow>
           writes (run d cfg [Enqueue ea na, Enqueue eb nb, Enqueue ec nc, Flush]) =
             [(0, Batch [eb, ec])] \<and>
           delivered (run d cfg [Enqueue ea na, Enqueue eb nb, Enqueue ec nc, Flush]) = [[eb, ec]])"
      using i tk fa dl unfolding r3 by (intro conjI) simp_all
  qed
  show "int (length (queue ?s)) \<le> maxQueueSize cfg \<and>
     queue ?s = drop (length (admitted ?s) - length (queue ?s)) (admitted ?s) \<and>
     (\<forall>e. queue (push_evict cfg e ?s) =
            drop (Suc (length (admitted ?s)) - min (nat (maxQueueSize cfg)) (Suc (length (queue ?s))))
              (admitted ?s @ [e])) \<and>
     (maxQueueSize cfg = 2 \<and> batchSize cfg > 2 \<and> minLevel cfg = None \<and> filter_fn cfg = None \<and>
      rateLimit cfg \<le> 0 \<longrightarrow>
        queue (run d cfg [Enqueue ea na, Enqueue eb nb, Enqueue ec nc]) = [eb, ec] \<and>
        evicted (run d cfg [Enqueue ea na, Enqueue eb nb, Enqueue ec nc]) = [ea] \<and>
        writes (run d cfg [Enqueue ea na, Enqueue eb nb, Enqueue ec nc]) = [] \<and>
        take (Suc 0) (writes (run d cfg [Enqueue ea na, Enqueue eb nb, Enqueue ec nc, Flush])) =
          [(0, Batch [eb, ec])] \<and>
        (quiet cfg \<longrightarrow>
           first_attempts (run d cfg [Enqueue ea na, Enqueue eb nb, Enqueue ec nc, Flush]) =
             [Batch [eb, ec]]) \<and>
        (transport cfg [Batch [eb, ec]] = ([], Returns) \<longrightarrow>
           writes (run d cfg [Enqueue ea na, Enqueue eb nb, Enqueue ec nc, Flush]) =
             [(0, Batch [eb, ec])] \<and>
           delivered (run d cfg [Enqueue ea na, Enqueue eb nb, Enqueue ec nc, Flush]) = [[eb, ec]]))"
    by (intro conjI 1 2 3 4)
qed

theorem capacity_eviction_witness:
  "delivered (run 0 ((default_config (\<lambda>h. ([], Returns)))\<lparr>batchSize := 10, maxQueueSize := 2\<rparr>)
     [Enqueue (info_entry ''first'') 0, Enqueue (info_entry ''second'') 0,
      Enqueue (info_entry ''third'') 0, Flush]) =
     [[info_entry ''second'', info_entry ''third'']] \<and>
   length (queue (run 0 ((default_config (\<lambda>h. ([], Returns)))\<lparr>batchSize := 10, maxQueueSize := 2\<rparr>)
     [Enqueue (info_entry ''first'') 0, Enqueue (info_entry ''second'') 0,
      Enqueue (info_entry ''third'') 0])) \<le> 2"
proof -
  let ?c = "(default_config (\<lambda>h. ([], Returns)))\<lparr>batchSize := 10, maxQueueSize := 2\<rparr>"
  have h: "maxQueueSize ?c > 0"
    "maxQueueSize ?c = 2 \<and> batchSize ?c > 2 \<and> minLevel ?c = None \<and> filter_fn ?c = None \<and> rateLimit ?c \<le> 0"
    "transport ?c [Batch [info_entry ''second'', info_entry ''third'']] = ([], Returns)"
    by simp_all
  note t = capacity_eviction[where cfg = ?c and d = 0 and ea = "info_entry ''first''"
      and eb = "info_entry ''second''"
      and ec = "info_entry ''third''" and na = 0 and nb = 0 and nc = 0
      and evs = "[Enqueue (info_entry ''first'') 0, Enqueue (info_entry ''second'') 0,
                  Enqueue (info_entry ''third'') 0]"]
  from t h have a: "delivered (run 0 ?c [Enqueue (info_entry ''first'') 0, Enqueue (info_entry ''second'') 0,
      Enqueue (info_entry ''third'') 0, Flush]) = [[info_entry ''second'', info_entry ''third'']]"
    by blast
  from t h have b: "int (length (queue (run 0 ?c [Enqueue (info_entry ''first'') 0,
      Enqueue (info_entry ''second'') 0, Enqueue (info_entry ''third'') 0]))) \<le> maxQueueSize ?c"
    by blast
  show ?thesis using a b by simp
qed

subsection \<open>The flush trigger\<close>

lemma flushNow_idle_writes:
  assumes q: "calm cb cfg" and "flushPromise s = None" "tasks s = []" "queue s \<noteq> []"
  shows "writes (flushNow cb cfg who s) =
           writes (snd (snd (attempt_loop cb cfg (payload_of (queue s)) 0 (s\<lparr>timer := False, queue := []\<rparr>))))"
  using assms writes_doWrite[OF q, of "s\<lparr>timer := False, queue := []\<rparr>" "queue s"]
  by (simp add: flushNow_calm[OF q] Let_def split: option.splits)

lemma attempt_loop_single:
  assumes q: "calm cb cfg"
      and "snd (transport cfg (map snd (writes s) @ [p])) \<noteq> Throws \<or> maxRetries cfg \<le> a"
  shows "writes (snd (snd (attempt_loop cb cfg p a s))) = writes s @ [(a, p)]"
  using assms(2)
  by (cases "snd (transport cfg (map snd (writes s) @ [p]))")
     (auto simp: attempt_loop_calm[OF q, of p a s] Let_def)

lemma prefix_snoc_take: "prefix (xs @ [x]) ys \<Longrightarrow> take (Suc (length xs)) ys = xs @ [x]"
  by (auto simp: prefix_def)

text \<open>
  Claim C7 as stated does not hold: with \<open>batchSize = 3\<close> and the default
  \<open>flushInterval = 0\<close>, admitting one entry makes no write and arms no timer.
\<close>

theorem trigger_no_timer_counterexample:
  "timer (run 0 ((default_config (\<lambda>h. ([], Returns)))\<lparr>batchSize := 3\<rparr>) [Enqueue (info_entry ''A'') 0]) = False \<and>
   writes (run 0 ((default_config (\<lambda>h. ([], Returns)))\<lparr>batchSize := 3\<rparr>) [Enqueue (info_entry ''A'') 0]) = [] \<and>
   queue (run 0 ((default_config (\<lambda>h. ([], Returns)))\<lparr>batchSize := 3\<rparr>) [Enqueue (info_entry ''A'') 0]) =
     [info_entry ''A'']"
  by (simp add: slot_eval)

text \<open>
  Claim C7, amended. An enqueue that admits its entry pushes it (evicting on overflow)
  and then applies the trigger policy to the resulting state: when \<open>batchSize \<le> 1\<close> or
  the queue has reached \<open>batchSize\<close> it calls \<open>flushNow\<close>; otherwise it makes no write and
  calls \<open>armTimer\<close>, after which a timer is pending exactly when one was pending before
  or \<open>flushInterval > 0\<close>. When no write is in flight, \<open>flushNow\<close> hands the whole queue to
  the transport as one batch: the next write call is a first attempt with the whole
  queue as its payload, whatever the transport does; and when the transport does not
  call the logger from inside \<open>write\<close>, this is the only batch handed over and the queue
  is empty afterwards. With \<open>batchSize = 3\<close> on a fresh slot without filters, rate limit
  or a capacity below 3: after A and B no write has been made; C makes the first write,
  of the batch [A, B, C]; and for a transport that does not call the logger this is the
  only batch handed over, and the only write unless that attempt throws and retries are
  configured.
\<close>

theorem flush_trigger_policy:
  "(enqueue cb cfg e now s = Inr s' \<and> admitted s' \<noteq> admitted s \<longrightarrow>
      s' = trigger cb cfg (push_evict cfg e (snd (isRateLimited cfg now s)))) \<and>
   (batchSize cfg \<le> 1 \<or> int (length (queue s1)) \<ge> batchSize cfg \<longrightarrow>
      trigger cb cfg s1 = flushNow cb cfg None s1) \<and>
   (\<not> (batchSize cfg \<le> 1 \<or> int (length (queue s1)) \<ge> batchSize cfg) \<longrightarrow>
      writes (trigger cb cfg s1) = writes s1 \<and> queue (trigger cb cfg s1) = queue s1 \<and>
      tasks (trigger cb cfg s1) = tasks s1 \<and>
      timer (trigger cb cfg s1) = (timer s1 \<or> flushInterval cfg > 0)) \<and>
   (flushPromise s1 = None \<and> queue s1 \<noteq> [] \<longrightarrow>
      take (Suc (length (writes s1))) (writes (flushNow (callbacks d cfg) cfg None s1)) =
        writes s1 @ [(0, payload_of (queue s1))]) \<and>
   (quiet cfg \<and> flushPromise s1 = None \<and> tasks s1 = [] \<and> queue s1 \<noteq> [] \<longrightarrow>
      queue (flushNow (callbacks d cfg) cfg None s1) = [] \<and>
      first_attempts (flushNow (callbacks d cfg) cfg None s1) =
        first_attempts s1 @ [payload_of (queue s1)]) \<and>
   (batchSize cfg = 3 \<and> minLevel cfg = None \<and> filter_fn cfg = None \<and> rateLimit cfg \<le> 0 \<and>
    (maxQueueSize cfg \<le> 0 \<or> maxQueueSize cfg \<ge> 3) \<longrightarrow>
      writes (run d cfg [Enqueue ea na, Enqueue eb nb]) = [] \<and>
      queue (run d cfg [Enqueue ea na, Enqueue eb nb]) = [ea, eb] \<and>
      timer (run d cfg [Enqueue ea na, Enqueue eb nb]) = (flushInterval cfg > 0) \<and>
      take (Suc 0) (writes (run d cfg [Enqueue ea na, Enqueue eb nb, Enqueue ec nc])) =
        [(0, Batch [ea, eb, ec])] \<and>
      (quiet cfg \<longrightarrow>
         first_attempts (run d cfg [Enqueue ea na, Enqueue eb nb, Enqueue ec nc]) = [Batch [ea, eb, ec]] \<and>
         queue (run d cfg [Enqueue ea na, Enqueue eb nb, Enqueue ec nc]) = [] \<and>
         (snd (transport cfg [Batch [ea, eb, ec]]) \<noteq> Throws \<or> maxRetries cfg \<le> 0 \<longrightarrow>
            writes (run d cfg [Enqueue ea na, Enqueue eb nb, Enqueue ec nc]) =
              [(0, Batch [ea, eb, ec])])))"
proof -
  let ?cb = "callbacks d cfg"
  have 1: "enqueue cb cfg e now s = Inr s' \<and> admitted s' \<noteq> admitted s \<longrightarrow>
      s' = trigger cb cfg (push_evict cfg e (snd (isRateLimited cfg now s)))"
  proof
    assume a: "enqueue cb cfg e now s = Inr s' \<and> admitted s' \<noteq> admitted s"
    then have "enqueue cb cfg e now s = Inr s'" by simp
    then show "s' = trigger cb cfg (push_evict cfg e (snd (isRateLimited cfg now s)))"
      using a by (cases rule: enqueue_cases) simp_all
  qed
  have 2: "batchSize cfg \<le> 1 \<or> int (length (queue s1)) \<ge> batchSize cfg \<longrightarrow>
      trigger cb cfg s1 = flushNow cb cfg None s1"
    by (simp add: trigger_def)
  have 3: "\<not> (batchSize cfg \<le> 1 \<or> int (length (queue s1)) \<ge> batchSize cfg) \<longrightarrow>
      writes (trigger cb cfg s1) = writes s1 \<and> queue (trigger cb cfg s1) = queue s1 \<and>
      tasks (trigger cb cfg s1) = tasks s1 \<and>
      timer (trigger cb cfg s1) = (timer s1 \<or> flushInterval cfg > 0)"
    by (auto simp: trigger_def armTimer_def)
  have 4: "flushPromise s1 = None \<and> queue s1 \<noteq> [] \<longrightarrow>
      take (Suc (length (writes s1))) (writes (flushNow ?cb cfg None s1)) =
        writes s1 @ [(0, payload_of (queue s1))]"
    using flushNow_first_write[OF callbacks_extends, where s = s1 and who = None and d1 = d
            and cfg1 = cfg and cfg = cfg]
    by (auto intro: prefix_snoc_take)
  have 5: "quiet cfg \<and> flushPromise s1 = None \<and> tasks s1 = [] \<and> queue s1 \<noteq> [] \<longrightarrow>
      queue (flushNow ?cb cfg None s1) = [] \<and>
      first_attempts (flushNow ?cb cfg None s1) = first_attempts s1 @ [payload_of (queue s1)]"
  proof
    assume h: "quiet cfg \<and> flushPromise s1 = None \<and> tasks s1 = [] \<and> queue s1 \<noteq> []"
    then have c: "calm ?cb cfg" by (simp add: calm_callbacks)
    show "queue (flushNow ?cb cfg None s1) = [] \<and>
      first_attempts (flushNow ?cb cfg None s1) = first_attempts s1 @ [payload_of (queue s1)]"
      using flushNow_idle_first_attempts(1,2)[OF c, of s1 None] h by simp
  qed
  have 6: "batchSize cfg = 3 \<and> minLevel cfg = None \<and> filter_fn cfg = None \<and> rateLimit cfg \<le> 0 \<and>
    (maxQueueSize cfg \<le> 0 \<or> maxQueueSize cfg \<ge> 3) \<longrightarrow>
      writes (run d cfg [Enqueue ea na, Enqueue eb nb]) = [] \<and>
      queue (run d cfg [Enqueue ea na, Enqueue eb nb]) = [ea, eb] \<and>
      timer (run d cfg [Enqueue ea na, Enqueue eb nb]) = (flushInterval cfg > 0) \<and>
      take (Suc 0) (writes (run d cfg [Enqueue ea na, Enqueue eb nb, Enqueue ec nc])) =
        [(0, Batch [ea, eb, ec])] \<and>
      (quiet cfg \<longrightarrow>
         first_attempts (run d cfg [Enqueue ea na, Enqueue eb nb, Enqueue ec nc]) = [Batch [ea, eb, ec]] \<and>
         queue (run d cfg [Enqueue ea na, Enqueue eb nb, Enqueue ec nc]) = [] \<and>
         (snd (transport cfg [Batch [ea, eb, ec]]) \<noteq> Throws \<or> maxRetries cfg \<le> 0 \<longrightarrow>
            writes (run d cfg [Enqueue ea na, Enqueue eb nb, Enqueue ec nc]) =
              [(0, Batch [ea, eb, ec])]))"
  proof
    assume a: "batchSize cfg = 3 \<and> minLevel cfg = None \<and> filter_fn cfg = None \<and> rateLimit cfg \<le> 0 \<and>
      (maxQueueSize cfg \<le> 0 \<or> maxQueueSize cfg \<ge> 3)"
    let ?s1 = "armTimer cfg (push_evict cfg ea new_slot)"
    let ?s2 = "armTimer cfg (push_evict cfg eb ?s1)"
    let ?p3 = "push_evict cfg ec ?s2"
    let ?s3 = "flushNow ?cb cfg None ?p3"
    have q1: "queue ?s1 = [ea]" using a by (auto simp: queue_push_evict new_slot_def)
    have q2: "queue ?s2 = [ea, eb]" using a q1 by (auto simp: queue_push_evict)
    have q3: "queue ?p3 = [ea, eb, ec]" using a q2 by (auto simp: queue_push_evict)
    have r1: "run d cfg [Enqueue ea na] = ?s1"
      using run_Cons_simps(2)[of d cfg "[]" ea na] enqueue_buffered[of cfg ea new_slot ?cb na] a q1
      by (simp add: run_Cons_simps(1))
    have r2: "run d cfg [Enqueue ea na, Enqueue eb nb] = ?s2"
      using run_Cons_simps(2)[of d cfg "[Enqueue ea na]" eb nb]
        enqueue_buffered[of cfg eb ?s1 ?cb nb] a q2 r1
      by simp
    have r3: "run d cfg [Enqueue ea na, Enqueue eb nb, Enqueue ec nc] = ?s3"
      using run_Cons_simps(2)[of d cfg "[Enqueue ea na, Enqueue eb nb]" ec nc]
        enqueue_flushing[of cfg ec ?s2 ?cb nc] a q3 r2
      by simp
    have t2: "timer ?s2 = (flushInterval cfg > 0)"
      by (auto simp: armTimer_def new_slot_def)
    have i: "flushPromise ?p3 = None" "tasks ?p3 = []" "queue ?p3 \<noteq> []" "writes ?p3 = []"
      using q3 by (simp_all add: new_slot_def)
    have pl: "payload_of (queue ?p3) = Batch [ea, eb, ec]" using q3 by (simp add: payload_of_def)
    have tk: "take (Suc 0) (writes ?s3) = [(0, Batch [ea, eb, ec])]"
      using flushNow_first_write[OF callbacks_extends i(1,3), where d1 = d and cfg1 = cfg
              and cfg = cfg and who = None]
      by (simp only: pl i(4) append_Nil prefix_single_take)
    have qq: "quiet cfg \<longrightarrow>
         first_attempts ?s3 = [Batch [ea, eb, ec]] \<and> queue ?s3 = [] \<and>
         (snd (transport cfg [Batch [ea, eb, ec]]) \<noteq> Throws \<or> maxRetries cfg \<le> 0 \<longrightarrow>
            writes ?s3 = [(0, Batch [ea, eb, ec])])"
    proof
      assume qu: "quiet cfg"
      note c = calm_callbacks[OF qu, of d]
      have fa: "first_attempts ?s3 = [Batch [ea, eb, ec]]" "queue ?s3 = []"
        using flushNow_idle_first_attempts(1,2)[OF c i(1,2,3), of None] i(4) q3
        by (simp_all add: first_attempts_def payload_of_def)
      have w: "snd (transport cfg [Batch [ea, eb, ec]]) \<noteq> Throws \<or> maxRetries cfg \<le> 0 \<longrightarrow>
               writes ?s3 = [(0, Batch [ea, eb, ec])]"
      proof
        assume h: "snd (transport cfg [Batch [ea, eb, ec]]) \<noteq> Throws \<or> maxRetries cfg \<le> 0"
        let ?z = "?p3\<lparr>timer := False, queue := []\<rparr>"
        have wz: "writes ?z = []" using i(4) by simp
        have h': "snd (transport cfg (map snd (writes ?z) @ [Batch [ea, eb, ec]])) \<noteq> Throws \<or>
                  maxRetries cfg \<le> 0"
          using h by (simp only: wz list.map append_Nil)
        have "writes (snd (snd (attempt_loop ?cb cfg (Batch [ea, eb, ec]) 0 ?z))) =
                writes ?z @ [(0, Batch [ea, eb, ec])]"
          by (rule attempt_loop_single[OF c h'])
        then show "writes ?s3 = [(0, Batch [ea, eb, ec])]"
          using flushNow_idle_writes[OF c i(1,2,3), of None]
          by (simp only: pl wz append_Nil)
      qed
      show "first_attempts ?s3 = [Batch [ea, eb, ec]] \<and> queue ?s3 = [] \<and>
         (snd (transport cfg [Batch [ea, eb, ec]]) \<noteq> Throws \<or> maxRetries cfg \<le> 0 \<longrightarrow>
            writes ?s3 = [(0, Batch [ea, eb, ec])])"
        using fa w by simp
    qed
    have w2: "writes ?s2 = []" by (simp add: new_slot_def)
    show "writes (run d cfg [Enqueue ea na, Enqueue eb nb]) = [] \<and>
      queue (run d cfg [Enqueue ea na, Enqueue eb nb]) = [ea, eb] \<and>
      timer (run d cfg [Enqueue ea na, Enqueue eb nb]) = (flushInterval cfg > 0) \<and>
      take (Suc 0) (writes (run d cfg [Enqueue ea na, Enqueue eb nb, Enqueue ec nc])) =
        [(0, Batch [ea, eb, ec])] \<and>
      (quiet cfg \<longrightarrow>
         first_attempts (run d cfg [Enqueue ea na, Enqueue eb nb, Enqueue ec nc]) = [Batch [ea, eb, ec]] \<and>
         queue (run d cfg [Enqueue ea na, Enqueue eb nb, Enqueue ec nc]) = [] \<and>
         (snd (transport cfg [Batch [ea, eb, ec]]) \<noteq> Throws \<or> maxRetries cfg \<le> 0 \<longrightarrow>
            writes (run d cfg [Enqueue ea na, Enqueue eb nb, Enqueue ec nc]) =
              [(0, Batch [ea, eb, ec])]))"
      unfolding r2 r3 using w2 q2 t2 tk qq by (intro conjI)
  qed
  show ?thesis by (intro conjI 1 2 3 4 5 6)
qed

theorem flush_trigger_policy_witness:
  "writes (run 0 ((default_config (\<lambda>h. ([], Returns)))\<lparr>batchSize := 3, flushInterval := 500\<rparr>)
     [Enqueue (info_entry ''A'') 0, Enqueue (info_entry ''B'') 0]) = [] \<and>
   timer (run 0 ((default_config (\<lambda>h. ([], Returns)))\<lparr>batchSize := 3, flushInterval := 500\<rparr>)
     [Enqueue (info_entry ''A'') 0, Enqueue (info_entry ''B'') 0]) = True \<and>
   writes (run 0 ((default_config (\<lambda>h. ([], Returns)))\<lparr>batchSize := 3, flushInterval := 500\<rparr>)
     [Enqueue (info_entry ''A'') 0, Enqueue (info_entry ''B'') 0, Enqueue (info_entry ''C'') 0]) =
     [(0, Batch [info_entry ''A'', info_entry ''B'', info_entry ''C''])]"
proof -
  let ?c = "(default_config (\<lambda>h. ([], Returns)))\<lparr>batchSize := 3, flushInterval := 500\<rparr>"
  have h: "batchSize ?c = 3 \<and> minLevel ?c = None \<and> filter_fn ?c = None \<and> rateLimit ?c \<le> 0 \<and>
    (maxQueueSize ?c \<le> 0 \<or> maxQueueSize ?c \<ge> 3)"
    "snd (transport ?c [Batch [info_entry ''A'', info_entry ''B'', info_entry ''C'']]) \<noteq> Throws \<or>
     maxRetries ?c \<le> 0"
    "flushInterval ?c > 0"
    "quiet ?c"
    by (simp_all add: quiet_def)
  note t = flush_trigger_policy[where cfg = ?c and d = 0 and ea = "info_entry ''A''"
      and eb = "info_entry ''B''"
      and ec = "info_entry ''C''" and na = 0 and nb = 0 and nc = 0]
  from t h(1,2,4) have
    "writes (run 0 ?c [Enqueue (info_entry ''A'') 0, Enqueue (info_entry ''B'') 0]) = []"
    "timer (run 0 ?c [Enqueue (info_entry ''A'') 0, Enqueue (info_entry ''B'') 0]) = (flushInterval ?c > 0)"
    "writes (run 0 ?c [Enqueue (info_entry ''A'') 0, Enqueue (info_entry ''B'') 0, Enqueue (info_entry ''C'') 0]) =
       [(0, Batch [info_entry ''A'', info_entry ''B'', info_entry ''C''])]"
    by blast+
  then show ?thesis using h(3) by simp
qed

subsection \<open>The retry policy\<close>


lemma replicate_snoc_Cons: "xs @ [p] @ replicate n p = xs @ replicate (Suc n) p"
  by simp







subsection \<open>Flush\<close>

lemma flushNow_guarded:
  "flushPromise (flushNow cb cfg who s) \<noteq> None \<or> queue (flushNow cb cfg who s) = []"
  by (auto simp: flushNow_def Let_def resolve_caller_def split: option.splits)

lemma flushNow_no_write:
  "flushPromise s \<noteq> None \<or> queue s = [] \<Longrightarrow>
   writes (flushNow cb cfg who s) = writes s \<and> tasks (flushNow cb cfg who s) = tasks s \<and>
   queue (flushNow cb cfg who s) = queue s \<and> delivered (flushNow cb cfg who s) = delivered s \<and>
   discarded (flushNow cb cfg who s) = discarded s \<and>
   flushPromise (flushNow cb cfg who s) = flushPromise s"
  by (auto simp: flushNow_def Let_def split: option.splits)

text \<open>
  Claim C8 as stated does not hold where the capacity limit evicts. With
  \<open>maxQueueSize = 1\<close> and a transport that answers later: \<open>a\<close> is being written, \<open>b\<close>
  waits in the queue, \<open>flush()\<close> is called, then \<open>c\<close> is admitted and evicts \<open>b\<close>. The
  flush call completes after \<open>a\<close> and \<open>c\<close> have been written, and \<open>b\<close>, enqueued before
  the call, was neither handed to the transport nor dropped after exhausted retries.
\<close>

theorem flush_eviction_counterexample:
  "flush_done (run 0 ((default_config (\<lambda>h. ([], Pending)))\<lparr>maxQueueSize := 1\<rparr>)
     [Enqueue (info_entry ''a'') 0, Enqueue (info_entry ''b'') 0, Flush,
      Enqueue (info_entry ''c'') 0, WriteSettled 0 True, FinallyCb 0, Resolve 0,
      WriteSettled 1 True, FinallyCb 1, Resolve 1]) = [(0, True)] \<and>
   flush_marks (run 0 ((default_config (\<lambda>h. ([], Pending)))\<lparr>maxQueueSize := 1\<rparr>)
     [Enqueue (info_entry ''a'') 0, Enqueue (info_entry ''b'') 0, Flush]) = [2] \<and>
   admitted (run 0 ((default_config (\<lambda>h. ([], Pending)))\<lparr>maxQueueSize := 1\<rparr>)
     [Enqueue (info_entry ''a'') 0, Enqueue (info_entry ''b'') 0, Flush]) =
     [info_entry ''a'', info_entry ''b''] \<and>
   map snd (writes (run 0 ((default_config (\<lambda>h. ([], Pending)))\<lparr>maxQueueSize := 1\<rparr>)
     [Enqueue (info_entry ''a'') 0, Enqueue (info_entry ''b'') 0, Flush,
      Enqueue (info_entry ''c'') 0, WriteSettled 0 True, FinallyCb 0, Resolve 0,
      WriteSettled 1 True, FinallyCb 1, Resolve 1])) =
     [Single (info_entry ''a''), Single (info_entry ''c'')] \<and>
   discarded (run 0 ((default_config (\<lambda>h. ([], Pending)))\<lparr>maxQueueSize := 1\<rparr>)
     [Enqueue (info_entry ''a'') 0, Enqueue (info_entry ''b'') 0, Flush,
      Enqueue (info_entry ''c'') 0, WriteSettled 0 True, FinallyCb 0, Resolve 0,
      WriteSettled 1 True, FinallyCb 1, Resolve 1]) = [] \<and>
   evicted (run 0 ((default_config (\<lambda>h. ([], Pending)))\<lparr>maxQueueSize := 1\<rparr>)
     [Enqueue (info_entry ''a'') 0, Enqueue (info_entry ''b'') 0, Flush,
      Enqueue (info_entry ''c'') 0, WriteSettled 0 True, FinallyCb 0, Resolve 0,
      WriteSettled 1 True, FinallyCb 1, Resolve 1]) = [info_entry ''b'']"
  by (simp add: slot_eval)

text \<open>
  Claim C8, amended. For every transport: \<open>flush()\<close> on a slot with an empty queue and
  \<open>flushPromise\<close> not set resolves at once and is a no-op (no write, no activation, queue
  and \<open>flushPromise\<close> as before; only the call and its completion are recorded); a second
  \<open>flush()\<close> right after a first one forms no batch and makes no write; and in every
  reachable state the queue, and every batch when it was formed, hold the most recently
  admitted entries, which gives the positions compared below their meaning.

  For a transport that does not call the logger from inside \<open>write\<close>: in every reachable
  state each batch handed to the transport has exactly one first attempt (the first
  attempts are as many as the batches delivered, given up or in flight); and every
  \<open>flush()\<close> call that has completed did so at a moment when no entry admitted before the
  call was still in the queue or in the batch of an unfinished write: each such entry had
  been handed to the transport in a batch whose write had ended (delivered, or dropped
  after its retries), or evicted by the capacity limit. In particular \<open>flush()\<close> in a
  reachable state with an empty queue and \<open>flushPromise\<close> not set completes at once with
  this check passed.
\<close>

theorem flush_idempotent_and_draining:
  "(queue s = [] \<and> flushPromise s = None \<longrightarrow>
      writes (flush cb cfg s) = writes s \<and> tasks (flush cb cfg s) = tasks s \<and>
      queue (flush cb cfg s) = [] \<and> flushPromise (flush cb cfg s) = None \<and>
      timer (flush cb cfg s) = timer s \<and> waiters (flush cb cfg s) = waiters s \<and>
      delivered (flush cb cfg s) = delivered s \<and> discarded (flush cb cfg s) = discarded s \<and>
      map fst (flush_done (flush cb cfg s)) = map fst (flush_done s) @ [length (flush_marks s)]) \<and>
   writes (flush cb cfg (flush cb cfg s)) = writes (flush cb cfg s) \<and>
   tasks (flush cb cfg (flush cb cfg s)) = tasks (flush cb cfg s) \<and>
   queue (flush cb cfg (flush cb cfg s)) = queue (flush cb cfg s) \<and>
   suffix (queue (run d cfg evs)) (admitted (run d cfg evs)) \<and>
   (\<forall>t\<in>set (tasks (run d cfg evs)).
      t_upto t \<le> length (admitted (run d cfg evs)) \<and>
      suffix (t_batch t) (take (t_upto t) (admitted (run d cfg evs)))) \<and>
   (quiet cfg \<longrightarrow>
      (queue (run d cfg evs) = [] \<and> flushPromise (run d cfg evs) = None \<longrightarrow>
         flush (callbacks d cfg) cfg (run d cfg evs) =
           (run d cfg evs)\<lparr>flush_marks := flush_marks (run d cfg evs) @ [length (admitted (run d cfg evs))],
                            flush_done := flush_done (run d cfg evs) @
                                            [(length (flush_marks (run d cfg evs)), True)]\<rparr>) \<and>
      length (first_attempts (run d cfg evs)) =
        length (delivered (run d cfg evs)) + length (discarded (run d cfg evs)) +
        length (in_flight (run d cfg evs)) \<and>
      (\<forall>x\<in>set (flush_done (run d cfg evs)). snd x))"
proof -
  let ?s = "run d cfg evs"
  let ?cb = "callbacks d cfg"
  have 0: "queue s = [] \<and> flushPromise s = None \<longrightarrow>
      writes (flush cb cfg s) = writes s \<and> tasks (flush cb cfg s) = tasks s \<and>
      queue (flush cb cfg s) = [] \<and> flushPromise (flush cb cfg s) = None \<and>
      timer (flush cb cfg s) = timer s \<and> waiters (flush cb cfg s) = waiters s \<and>
      delivered (flush cb cfg s) = delivered s \<and> discarded (flush cb cfg s) = discarded s \<and>
      map fst (flush_done (flush cb cfg s)) = map fst (flush_done s) @ [length (flush_marks s)]"
    by (simp add: flush_def flushNow_def resolve_caller_def Let_def)
  let ?f = "flush cb cfg s"
  let ?f1 = "?f\<lparr>flush_marks := flush_marks ?f @ [length (admitted ?f)]\<rparr>"
  have fg: "flushPromise ?f \<noteq> None \<or> queue ?f = []"
    using flushNow_guarded[of cb cfg "Some (length (flush_marks s))"
            "s\<lparr>flush_marks := flush_marks s @ [length (admitted s)]\<rparr>"]
    by (simp add: flush_def Let_def)
  have ff: "flush cb cfg ?f = flushNow cb cfg (Some (length (flush_marks ?f))) ?f1"
    by (simp add: flush_def Let_def)
  have 2: "writes (flush cb cfg ?f) = writes ?f \<and> tasks (flush cb cfg ?f) = tasks ?f \<and>
           queue (flush cb cfg ?f) = queue ?f"
    unfolding ff using flushNow_no_write[of ?f1 cb cfg "Some (length (flush_marks ?f))"] fg by simp
  have q: "queue_inv cfg ?s" by (rule queue_inv_run)
  have 5: "suffix (queue ?s) (admitted ?s)" using q by (simp add: queue_inv_def)
  have 6: "\<forall>t\<in>set (tasks ?s). t_upto t \<le> length (admitted ?s) \<and>
             suffix (t_batch t) (take (t_upto t) (admitted ?s))"
    using q by (simp add: queue_inv_def)
  have 7: "quiet cfg \<longrightarrow>
      (queue ?s = [] \<and> flushPromise ?s = None \<longrightarrow>
         flush ?cb cfg ?s =
           ?s\<lparr>flush_marks := flush_marks ?s @ [length (admitted ?s)],
               flush_done := flush_done ?s @ [(length (flush_marks ?s), True)]\<rparr>) \<and>
      length (first_attempts ?s) =
        length (delivered ?s) + length (discarded ?s) + length (in_flight ?s) \<and>
      (\<forall>x\<in>set (flush_done ?s). snd x)"
  proof
    assume qu: "quiet cfg"
    have g: "guard_inv ?s" by (rule guard_inv_run[OF qu])
    have 1: "queue ?s = [] \<and> flushPromise ?s = None \<longrightarrow>
        flush ?cb cfg ?s = ?s\<lparr>flush_marks := flush_marks ?s @ [length (admitted ?s)],
                          flush_done := flush_done ?s @ [(length (flush_marks ?s), True)]\<rparr>"
    proof
      assume a: "queue ?s = [] \<and> flushPromise ?s = None"
      then have t: "tasks ?s = []" using g by (auto simp: guard_inv_def)
      show "flush ?cb cfg ?s = ?s\<lparr>flush_marks := flush_marks ?s @ [length (admitted ?s)],
                          flush_done := flush_done ?s @ [(length (flush_marks ?s), True)]\<rparr>"
        using a t
        by (simp add: flush_def flushNow_def resolve_caller_def drained_def mark_of_def Let_def)
    qed
    have l: "log_inv ?s" by (rule log_inv_run[OF qu])
    from l obtain F where F: "map entries_of (first_attempts ?s) = F @ in_flight ?s"
        "mset F = mset (delivered ?s) + mset (discarded ?s)"
      by (auto simp: log_inv_def batch_inv_def)
    have "length F = length (delivered ?s) + length (discarded ?s)"
      using F(2) by (metis length_append mset_append mset_eq_length)
    moreover have "length (first_attempts ?s) = length F + length (in_flight ?s)"
      using F(1) by (metis length_append length_map)
    ultimately have 3: "length (first_attempts ?s) =
       length (delivered ?s) + length (discarded ?s) + length (in_flight ?s)"
      by simp
    have 4: "\<forall>x\<in>set (flush_done ?s). snd x"
      using drain_inv_run[OF qu, of d evs] by (simp add: drain_inv_def)
    show "(queue ?s = [] \<and> flushPromise ?s = None \<longrightarrow>
         flush ?cb cfg ?s =
           ?s\<lparr>flush_marks := flush_marks ?s @ [length (admitted ?s)],
               flush_done := flush_done ?s @ [(length (flush_marks ?s), True)]\<rparr>) \<and>
      length (first_attempts ?s) =
        length (delivered ?s) + length (discarded ?s) + length (in_flight ?s) \<and>
      (\<forall>x\<in>set (flush_done ?s). snd x)"
      using 1 3 4 by (intro conjI)
  qed
  show ?thesis using 0 2 5 6 7 by (intro conjI) simp_all
qed

theorem flush_idempotent_and_draining_witness:
  "flush_done (run 0 ((default_config (\<lambda>h. ([], Returns)))\<lparr>batchSize := 100\<rparr>)
     [Enqueue (info_entry ''a'') 0, Flush, Flush, FinallyCb 0, Resolve 0]) = [(0, True), (1, True)] \<and>
   writes (run 0 ((default_config (\<lambda>h. ([], Returns)))\<lparr>batchSize := 100\<rparr>)
     [Enqueue (info_entry ''a'') 0, Flush, Flush, FinallyCb 0, Resolve 0]) =
     [(0, Single (info_entry ''a''))] \<and>
   writes (flush (callbacks 0 ((default_config (\<lambda>h. ([], Returns)))\<lparr>batchSize := 100\<rparr>))
     ((default_config (\<lambda>h. ([], Returns)))\<lparr>batchSize := 100\<rparr>)
     (run 0 ((default_config (\<lambda>h. ([], Returns)))\<lparr>batchSize := 100\<rparr>)
       [Enqueue (info_entry ''a'') 0, Flush, Flush, FinallyCb 0, Resolve 0])) =
     [(0, Single (info_entry ''a''))]"
proof -
  let ?c = "(default_config (\<lambda>h. ([], Returns)))\<lparr>batchSize := 100\<rparr>"
  let ?evs = "[Enqueue (info_entry ''a'') 0, Flush, Flush, FinallyCb 0, Resolve 0]"
  let ?s = "run 0 ?c ?evs"
  have h: "queue ?s = [] \<and> flushPromise ?s = None" by (simp add: slot_eval)
  have qu: "quiet ?c" by (simp add: quiet_def)
  have dn: "map fst (flush_done ?s) = [0, 1]" by (simp add: slot_eval)
  have w: "writes ?s = [(0, Single (info_entry ''a''))]" by (simp add: slot_eval)
  note t = flush_idempotent_and_draining[where cfg = ?c and d = 0 and evs = ?evs]
  from t h qu have f: "flush (callbacks 0 ?c) ?c ?s =
      ?s\<lparr>flush_marks := flush_marks ?s @ [length (admitted ?s)],
          flush_done := flush_done ?s @ [(length (flush_marks ?s), True)]\<rparr>"
    by blast
  from t qu have a: "\<forall>x\<in>set (flush_done ?s). snd x" by blast
  obtain x y where xy: "flush_done ?s = [x, y]" using dn by (cases "flush_done ?s") auto
  have "x = (0, True)" "y = (1, True)" using a dn xy by (auto simp: prod_eq_iff)
  then show ?thesis using xy w f by simp
qed

text \<open>
  What the amended claim leaves out: with the transport of the failing input of claim
  C2, whose first write logs \<open>b\<close>, the \<open>finally\<close> callback of the write of \<open>b\<close> clears
  \<open>flushPromise\<close> while \<open>a\<close> is still being written. A \<open>flush()\<close> called then finds the
  queue empty and \<open>flushPromise\<close> \<open>null\<close> and resolves at once, with \<open>a\<close>, admitted before
  the call, in the batch of an unfinished write.
\<close>

lemma reentrant_write_flush_resolves_early:
  "flush_done (run (Suc 0)
        (default_config (\<lambda>h. if length h = 1 then ([CallEnqueue (info_entry ''b'') 0], Pending)
                               else ([], Pending)))
        [Enqueue (info_entry ''a'') 0, WriteSettled 1 True, FinallyCb 1, Flush]) = [(0, False)] \<and>
   map (\<lambda>t. (t_phase t, t_batch t))
     (tasks (run (Suc 0)
        (default_config (\<lambda>h. if length h = 1 then ([CallEnqueue (info_entry ''b'') 0], Pending)
                               else ([], Pending)))
        [Enqueue (info_entry ''a'') 0, WriteSettled 1 True, FinallyCb 1, Flush])) =
     [(Awaiting, [info_entry ''a''])]"
  by (simp add: slot_eval)

end
